theory Spec2Isabelle
  imports Main "HOL-Library.AList" "HOL-Library.Multiset"
begin

section \<open>Exceptions, results and the builder's state\<close>

text \<open>
  The module under study is \<^verbatim>\<open>botoform/builders.py\<close>, class \<^verbatim>\<open>EnvironmentBuilder\<close>.
  It is Python 2 code: \<^verbatim>\<open>len(map(...))\<close> needs \<^verbatim>\<open>map\<close> to return a list, and \<^verbatim>\<open>/\<close> on
  two integers is floor division.

  A value of \<open>exn\<close> is a raised instance of Python's \<^verbatim>\<open>Exception\<close>. \<open>ClientError\<close> stands
  for whatever a call to the cloud provider raises.
\<close>

datatype exn =
    KeyError string
  | TypeError string
  | AttributeError string
  | ClientError string

text \<open>\<^verbatim>\<open>str(e)\<close>, as used by \<^verbatim>\<open>'Failure reason: {}'.format(e)\<close>.\<close>

fun str_exn :: "exn \<Rightarrow> string" where
  "str_exn (KeyError s) = s"
| "str_exn (TypeError s) = s"
| "str_exn (AttributeError s) = s"
| "str_exn (ClientError s) = s"

text \<open>
  A statement that may raise and that changes state is a function from the state to an
  outcome and the state it leaves behind: side effects performed before an exception
  stay performed.
\<close>

type_synonym ('a, 's) run = "'s \<Rightarrow> (exn + 'a) \<times> 's"

definition ok :: "'a \<Rightarrow> ('a, 's) run" where
  "ok x s = (Inr x, s)"

definition raise :: "exn \<Rightarrow> ('a, 's) run" where
  "raise e s = (Inl e, s)"

definition seq :: "('a, 's) run \<Rightarrow> ('a \<Rightarrow> ('b, 's) run) \<Rightarrow> ('b, 's) run" where
  "seq m f s = (case m s of (Inl e, s') \<Rightarrow> (Inl e, s') | (Inr x, s') \<Rightarrow> f x s')"

text \<open>Resources of the cloud account that carry tags.\<close>

datatype rid = InstanceId string | VolumeId string

record ec2_instance =
  inst_id :: string
  inst_identity :: string
  inst_subnet :: string
  inst_volumes :: "string list"

record subnet =
  subnet_id :: string
  subnet_tags :: "(string \<times> string) list"

text \<open>The keyword arguments of one \<^verbatim>\<open>subnet.create_instances(...)\<close> call.\<close>

record launch =
  l_subnet :: string
  l_image :: string
  l_instance_type :: "string option"
  l_count :: int
  l_key_name :: string
  l_security_group_ids :: "string list"
  l_token :: nat

text \<open>
  One entry of \<^verbatim>\<open>config['instance_roles']\<close>. A field is \<open>None\<close> when the key is absent
  from the dictionary, so that \<^verbatim>\<open>role_data.get(key, default)\<close> and \<^verbatim>\<open>role_data[key]\<close>
  can be told apart.
\<close>

record role_data =
  rd_ami :: "string option"
  rd_count :: "int option"
  rd_eip :: "bool option"
  rd_key_pair :: "string option"
  rd_security_groups :: "string list option"
  rd_subnets :: "string list option"
  rd_instance_type :: "string option"

text \<open>
  The configuration dictionary. Dictionaries that the code iterates over are association
  lists in iteration order. ``Other sections'' (route tables, subnets, endpoints,
  security groups) are read only by the stages that stay abstract below.
\<close>

type_synonym amis_table = "(string \<times> (string \<times> string) list) list"

record config =
  cfg_amis :: "amis_table option"
  cfg_key_pairs :: "string list option"
  cfg_instance_roles :: "(string \<times> role_data) list option"

text \<open>
  The state: the builder object (\<open>vpc_name\<close>, \<open>config\<close>, \<open>amis\<close>, the log) together
  with what \<^verbatim>\<open>self.evpc\<close> shows of the cloud account.

  Modelled from the spec: the collaborators of \<^verbatim>\<open>botoform.enriched\<close> and
  \<^verbatim>\<open>botoform.util\<close> are not part of the source at hand; section 6 of the specification
  describes them as lookups by name that return the resource or nothing, tagging
  calls, a launch call returning the new instances and a role-occupancy query. The
  fields below hold exactly the data these calls read and write:
  \<^item> \<open>key_pair_store\<close>: the short names for which a key pair exists;
  \<^item> \<open>security_group_store\<close>, \<open>subnet_store\<close>: resources by configured name;
  \<^item> \<open>instances\<close>: the instances of the VPC, \<open>tags\<close>: the tags of each resource;
  \<^item> \<open>launches\<close>: the launch calls issued so far, in order;
  \<^item> \<open>launch_error\<close>: how the provider answers a launch call (\<open>None\<close>: it succeeds);
  \<^item> \<open>mint\<close>, \<open>minted\<close>: the instances the provider hands out, and how many it has;
  \<^item> \<open>uuid_count\<close>: the source of \<^verbatim>\<open>uuid4()\<close> values;
  \<^item> \<open>eips\<close>, \<open>public_ip\<close>: elastic addresses allocated, and the address handed out.
\<close>

record world =
  vpc_name :: string
  region_name :: string
  config :: config
  amis :: amis_table
  logs :: "(string \<times> string) list"
  key_pair_store :: "string list"
  security_group_store :: "(string \<times> string) list"
  subnet_store :: "(string \<times> subnet) list"
  instances :: "ec2_instance list"
  tags :: "rid \<Rightarrow> (string \<times> string) list"
  launches :: "launch list"
  launch_error :: "launch \<Rightarrow> exn option"
  mint :: "nat \<Rightarrow> ec2_instance"
  minted :: nat
  uuid_count :: nat
  eips :: "string list"
  public_ip :: "string \<Rightarrow> string"

text \<open>
  Modelled from the spec: \<^verbatim>\<open>Log\<close> of \<^verbatim>\<open>botoform.util\<close> is not part of the source at hand;
  \<^verbatim>\<open>self.log.emit(message, level)\<close> appends a line to the log, and the level defaults
  to \<^verbatim>\<open>'info'\<close>.
\<close>

definition emit :: "string \<Rightarrow> string \<Rightarrow> (unit, world) run" where
  "emit message level w = (Inr (), w\<lparr>logs := logs w @ [(level, message)]\<rparr>)"

text \<open>\<^verbatim>\<open>'{}'.format(n)\<close> for an integer.\<close>

fun str_nat :: "nat \<Rightarrow> string" where
  "str_nat n =
     (if n < 10 then [''0123456789'' ! n]
      else str_nat (n div 10) @ [''0123456789'' ! (n mod 10)])"

definition str_int :: "int \<Rightarrow> string" where
  "str_int i = (if i < 0 then CHR ''-'' # str_nat (nat (- i)) else str_nat (nat i))"

section \<open>Key pairs\<close>

text \<open>
  Modelled from the spec: \<^verbatim>\<open>evpc.key_pair.get_key_pair(name)\<close> returns the key pair of
  that short name or \<^verbatim>\<open>None\<close>; \<^verbatim>\<open>create_key_pair(name)\<close> creates it. A key pair is
  identified with its short name, which is also its \<^verbatim>\<open>.name\<close>.
\<close>

definition get_key_pair :: "world \<Rightarrow> string \<Rightarrow> string option" where
  "get_key_pair w short_name =
     (if short_name \<in> set (key_pair_store w) then Some short_name else None)"

definition create_key_pair :: "string \<Rightarrow> (unit, world) run" where
  "create_key_pair short_name w =
     (Inr (), w\<lparr>key_pair_store := key_pair_store w @ [short_name]\<rparr>)"

text \<open>The \<^verbatim>\<open>for\<close> loop of \<^verbatim>\<open>key_pairs\<close>, over the list as it is after the append.\<close>

fun key_pairs_loop :: "string list \<Rightarrow> (unit, world) run" where
  "key_pairs_loop [] w = ok () w"
| "key_pairs_loop (short_key_pair_name # rest) w =
     (case (if get_key_pair w short_key_pair_name = None
            then seq (emit (''creating key pair '' @ short_key_pair_name) ''info'')
                     (\<lambda>_. create_key_pair short_key_pair_name) w
            else ok () w) of
        (Inl e, w') \<Rightarrow> (Inl e, w')
      | (Inr _, w') \<Rightarrow> key_pairs_loop rest w')"

text \<open>
  \<^verbatim>\<open>key_pairs(key_pair_cfg)\<close>. The argument is a Python list that the method appends to:
  the first component of the result is that same list object as the call leaves it, the
  second what the method does to the state.
\<close>

definition key_pairs :: "string list \<Rightarrow> world \<Rightarrow> string list \<times> ((exn + unit) \<times> world)" where
  "key_pairs key_pair_cfg w =
     (let key_pair_cfg' = key_pair_cfg @ [''default'']
      in (key_pair_cfg', key_pairs_loop key_pair_cfg' w))"

section \<open>Tagging\<close>

text \<open>
  Modelled from the spec: \<^verbatim>\<open>update_tags(resource, key = value, ...)\<close> of
  \<^verbatim>\<open>botoform.util\<close> sets each given tag on the resource and leaves its other tags alone.
\<close>

definition update_tags :: "rid \<Rightarrow> (string \<times> string) list \<Rightarrow> (unit, world) run" where
  "update_tags r kvs w =
     (Inr (), w\<lparr>tags := (tags w)(r := fold (\<lambda>(k, v). AList.update k v) kvs (tags w r))\<rparr>)"

definition tag_of :: "world \<Rightarrow> rid \<Rightarrow> string \<Rightarrow> string option" where
  "tag_of w r k = map_of (tags w r) k"

text \<open>Python's \<^verbatim>\<open>s.lstrip(chars)\<close>: drop leading characters while they occur in \<^verbatim>\<open>chars\<close>.\<close>

definition lstrip :: "string \<Rightarrow> string \<Rightarrow> string" where
  "lstrip chars s = dropWhile (\<lambda>c. c \<in> set chars) s"

fun tag_volumes :: "ec2_instance \<Rightarrow> string \<Rightarrow> string list \<Rightarrow> (unit, world) run" where
  "tag_volumes i hostname [] w = ok () w"
| "tag_volumes i hostname (volume # rest) w =
     (case seq (emit (''tagging volumes for instance '' @ inst_identity i
                       @ '' (Name:'' @ hostname @ '')'') ''info'')
               (\<lambda>_. update_tags (VolumeId volume) [(''Name'', hostname)]) w of
        (Inl e, w') \<Rightarrow> (Inl e, w')
      | (Inr _, w') \<Rightarrow> tag_volumes i hostname rest w')"

definition tag_instance :: "string \<Rightarrow> ec2_instance \<Rightarrow> (unit, world) run" where
  "tag_instance role_name i w =
     (let instance_id = lstrip ''i-'' (inst_id i);
          hostname = vpc_name w @ ''-'' @ role_name @ ''-'' @ instance_id
      in seq (emit (''tagging instance '' @ inst_identity i @ '' (Name:'' @ hostname
                     @ '', role:'' @ role_name @ '')'') ''info'')
        (\<lambda>_. seq (update_tags (InstanceId (inst_id i))
                     [(''Name'', hostname), (''role'', role_name)])
        (\<lambda>_. tag_volumes i hostname (inst_volumes i))) w)"

fun tag_instances_loop :: "string \<Rightarrow> ec2_instance list \<Rightarrow> (unit, world) run" where
  "tag_instances_loop role_name [] w = ok () w"
| "tag_instances_loop role_name (i # rest) w =
     (case tag_instance role_name i w of
        (Inl e, w') \<Rightarrow> (Inl e, w')
      | (Inr _, w') \<Rightarrow> tag_instances_loop role_name rest w')"

text \<open>
  \<^verbatim>\<open>tag_instances(role_name, instances)\<close>. The argument is whatever \<^verbatim>\<open>instance_role\<close>
  returned: a list of instances, or \<^verbatim>\<open>None\<close>, and \<^verbatim>\<open>for instance in None\<close> raises.
\<close>

definition tag_instances :: "string \<Rightarrow> ec2_instance list option \<Rightarrow> (unit, world) run" where
  "tag_instances role_name instances_arg =
     (case instances_arg of
        None \<Rightarrow> raise (TypeError ''NoneType object is not iterable'')
      | Some is \<Rightarrow> tag_instances_loop role_name is)"

section \<open>Reconciling one role\<close>

definition lift :: "exn + 'a \<Rightarrow> ('a, 's) run" where
  "lift r = (case r of Inl e \<Rightarrow> raise e | Inr x \<Rightarrow> ok x)"

definition reads :: "('s \<Rightarrow> 'a) \<Rightarrow> ('a, 's) run" where
  "reads f s = (Inr (f s), s)"

text \<open>
  Modelled from the spec: the lookups of \<^verbatim>\<open>EnrichedVPC\<close> return the resource of that
  name or \<^verbatim>\<open>None\<close>; a security group is represented by its id. \<^verbatim>\<open>subnet.instances\<close> are
  the instances that live in the subnet, and \<^verbatim>\<open>get_role(role_name, instances)\<close> keeps
  those tagged with the role (all instances of the VPC when no list is given).
\<close>

definition get_security_group :: "world \<Rightarrow> string \<Rightarrow> string option" where
  "get_security_group w name = map_of (security_group_store w) name"

definition get_subnet :: "world \<Rightarrow> string \<Rightarrow> subnet option" where
  "get_subnet w name = map_of (subnet_store w) name"

definition subnet_instances :: "world \<Rightarrow> subnet \<Rightarrow> ec2_instance list" where
  "subnet_instances w sn = filter (\<lambda>i. inst_subnet i = subnet_id sn) (instances w)"

definition get_role :: "world \<Rightarrow> string \<Rightarrow> ec2_instance list \<Rightarrow> ec2_instance list" where
  "get_role w role_name insts =
     filter (\<lambda>i. tag_of w (InstanceId (inst_id i)) ''role'' = Some role_name) insts"

text \<open>
  Modelled from the spec: \<^verbatim>\<open>get_ids(objects)\<close> of \<^verbatim>\<open>botoform.util\<close> gives the \<^verbatim>\<open>.id\<close> of
  each object, and \<^verbatim>\<open>None\<close> has no \<^verbatim>\<open>.id\<close>.
\<close>

definition get_ids :: "string option list \<Rightarrow> exn + string list" where
  "get_ids objects =
     (case those objects of
        None \<Rightarrow> Inl (AttributeError ''NoneType object has no attribute id'')
      | Some ids \<Rightarrow> Inr ids)"

text \<open>\<^verbatim>\<open>self.amis[role_data['ami']][self.evpc.region_name]\<close>: three subscripts, each may raise.\<close>

definition lookup_ami :: "world \<Rightarrow> role_data \<Rightarrow> exn + string" where
  "lookup_ami w role_data =
     (case rd_ami role_data of
        None \<Rightarrow> Inl (KeyError ''ami'')
      | Some ami_name \<Rightarrow>
          (case map_of (amis w) ami_name of
             None \<Rightarrow> Inl (KeyError ami_name)
           | Some by_region \<Rightarrow>
               (case map_of by_region (region_name w) of
                  None \<Rightarrow> Inl (KeyError (region_name w))
                | Some ami \<Rightarrow> Inr ami)))"

text \<open>
  \<^verbatim>\<open>sorted(subnets, key = lambda sn : collection_len(sn.instances))\<close>: a stable sort by the
  number of instances in the subnet (\<^verbatim>\<open>collection_len\<close> of \<^verbatim>\<open>botoform.util\<close> counts a
  collection); a \<^verbatim>\<open>None\<close> among the subnets has no \<^verbatim>\<open>.instances\<close>.
\<close>

definition sort_subnets :: "world \<Rightarrow> subnet option list \<Rightarrow> exn + subnet list" where
  "sort_subnets w sns =
     (case those sns of
        None \<Rightarrow> Inl (AttributeError ''NoneType object has no attribute instances'')
      | Some found \<Rightarrow> Inr (sort_key (\<lambda>sn. length (subnet_instances w sn)) found))"

text \<open>
  \<^verbatim>\<open>existing_count + ' ' + desired_count\<close>: the left operand is an \<^verbatim>\<open>int\<close> (a \<^verbatim>\<open>len\<close>), the
  right one a \<^verbatim>\<open>str\<close>, and Python defines no \<^verbatim>\<open>+\<close> between the two, in either order.
\<close>

definition int_plus_str :: "int \<Rightarrow> string \<Rightarrow> exn + string" where
  "int_plus_str n s = Inl (TypeError ''unsupported operand type(s) for +: int and str'')"

definition str_plus_int :: "string \<Rightarrow> int \<Rightarrow> exn + string" where
  "str_plus_int s n = Inl (TypeError ''cannot concatenate str and int objects'')"

text \<open>
  Lines 323 to 326: the count for one subnet and the remainder that is left, from the
  floor share, the remainder so far and the role's instances already in the subnet.
\<close>

definition subnet_count :: "int \<Rightarrow> int \<Rightarrow> int \<Rightarrow> int \<times> int" where
  "subnet_count needed_per_subnet needed_remainder existing_in_subnet =
     (let count = needed_per_subnet - existing_in_subnet
      in if needed_remainder \<noteq> 0 then (needed_remainder - 1, count + 1)
         else (needed_remainder, count))"

text \<open>
  Modelled from the spec: \<^verbatim>\<open>subnet.create_instances(...)\<close> is the provider's launch call.
  The call is recorded as issued; the provider then either fails or hands out
  \<^verbatim>\<open>MinCount = MaxCount\<close> new, untagged instances in that subnet.
\<close>

definition create_instances :: "launch \<Rightarrow> (ec2_instance list, world) run" where
  "create_instances req w =
     (let w1 = w\<lparr>launches := launches w @ [req]\<rparr>
      in case launch_error w req of
           Some e \<Rightarrow> (Inl e, w1)
         | None \<Rightarrow>
             (let n = nat (l_count req);
                  new = map (\<lambda>k. (mint w k)\<lparr>inst_subnet := l_subnet req\<rparr>)
                          [minted w ..< minted w + n]
              in (Inr new, w1\<lparr>instances := instances w @ new, minted := minted w + n\<rparr>)))"

text \<open>
  The body of the loop over the subnets (lines 318 to 347). It returns the remainder
  that is left and the instances to add to \<^verbatim>\<open>role_instances\<close>, none when the loop
  \<^verbatim>\<open>continue\<close>s. \<^verbatim>\<open>make_tag_dict(subnet)\<close> of \<^verbatim>\<open>botoform.util\<close> is the dictionary of
  the subnet's tags, and \<^verbatim>\<open>str(uuid4())\<close> is a value not used before.
\<close>

definition launch_in_subnet ::
  "string \<Rightarrow> role_data \<Rightarrow> string \<Rightarrow> string option \<Rightarrow> string option list \<Rightarrow> int \<Rightarrow> int \<Rightarrow> subnet
     \<Rightarrow> (int \<times> ec2_instance list, world) run" where
  "launch_in_subnet role_name role_data ami key_pair security_groups
       needed_per_subnet needed_remainder sn w =
     (let client_token = uuid_count w;
          w1 = w\<lparr>uuid_count := Suc (uuid_count w)\<rparr>;
          existing_in_subnet = int (length (get_role w1 role_name (subnet_instances w1 sn)));
          (needed_remainder', count) =
             subnet_count needed_per_subnet needed_remainder existing_in_subnet
      in if count = 0 then ok (needed_remainder', []) w1
         else
           seq (lift (case map_of (subnet_tags sn) ''Name'' of
                        None \<Rightarrow> Inl (KeyError ''Name'') | Some n \<Rightarrow> Inr n))
          (\<lambda>subnet_name.
           seq (emit (str_int count @ '' instances of role '' @ role_name
                       @ '' launching into '' @ subnet_name) ''info'')
          (\<lambda>_.
           seq (lift (case key_pair of
                        None \<Rightarrow> Inl (AttributeError ''NoneType object has no attribute name'')
                      | Some key_name \<Rightarrow> Inr key_name))
          (\<lambda>key_name.
           seq (lift (get_ids security_groups))
          (\<lambda>security_group_ids.
           seq (create_instances
                  \<lparr> l_subnet = subnet_id sn, l_image = ami,
                    l_instance_type = rd_instance_type role_data,
                    l_count = count, l_key_name = key_name,
                    l_security_group_ids = security_group_ids,
                    l_token = client_token \<rparr>)
          (\<lambda>new_instances. ok (needed_remainder', new_instances)))))) w1)"

fun launch_loop ::
  "string \<Rightarrow> role_data \<Rightarrow> string \<Rightarrow> string option \<Rightarrow> string option list \<Rightarrow> int \<Rightarrow> subnet list
     \<Rightarrow> int \<Rightarrow> ec2_instance list \<Rightarrow> (ec2_instance list, world) run" where
  "launch_loop role_name role_data ami key_pair security_groups needed_per_subnet
       [] needed_remainder role_instances w = ok role_instances w"
| "launch_loop role_name role_data ami key_pair security_groups needed_per_subnet
       (sn # rest) needed_remainder role_instances w =
     (case launch_in_subnet role_name role_data ami key_pair security_groups
             needed_per_subnet needed_remainder sn w of
        (Inl e, w') \<Rightarrow> (Inl e, w')
      | (Inr (needed_remainder', new_instances), w') \<Rightarrow>
          launch_loop role_name role_data ami key_pair security_groups needed_per_subnet
            rest needed_remainder' (role_instances @ new_instances) w')"

text \<open>
  \<^verbatim>\<open>instance_role(role_name, role_data, desired_count)\<close>. The result is \<^verbatim>\<open>None\<close> on the two
  early exits and the list of new instances otherwise.
\<close>

definition instance_role ::
  "string \<Rightarrow> role_data \<Rightarrow> int \<Rightarrow> (ec2_instance list option, world) run" where
  "instance_role role_name role_data desired_count =
     seq (emit (''creating role: '' @ role_name) ''info'')
    (\<lambda>_.
     seq (\<lambda>w. lift (lookup_ami w role_data) w)
    (\<lambda>ami.
     seq (reads (\<lambda>w. get_key_pair w
            (case rd_key_pair role_data of None \<Rightarrow> ''default'' | Some k \<Rightarrow> k)))
    (\<lambda>key_pair.
     seq (reads (\<lambda>w. map (get_security_group w)
            (case rd_security_groups role_data of None \<Rightarrow> [] | Some l \<Rightarrow> l)))
    (\<lambda>security_groups.
     seq (reads (\<lambda>w. map (get_subnet w)
            (case rd_subnets role_data of None \<Rightarrow> [] | Some l \<Rightarrow> l)))
    (\<lambda>subnets_found.
     if length subnets_found = 0 then
       seq (emit (''no subnets found for role: '' @ role_name) ''warning'')
      (\<lambda>_. ok None)
     else
       seq (\<lambda>w. lift (sort_subnets w subnets_found) w)
      (\<lambda>sorted_subnets.
       seq (reads (\<lambda>w. int (length (get_role w role_name (instances w)))))
      (\<lambda>existing_count.
       if existing_count \<ge> desired_count then
         seq (lift (int_plus_str existing_count '' ''))
        (\<lambda>s. seq (lift (str_plus_int s desired_count))
        (\<lambda>message. seq (emit message ''debug'')
        (\<lambda>_. ok None)))
       else
         (let needed_count = desired_count - existing_count;
              needed_per_subnet = needed_count div int (length sorted_subnets);
              needed_remainder = needed_count mod int (length sorted_subnets)
          in seq (launch_loop role_name role_data ami key_pair security_groups
                    needed_per_subnet sorted_subnets needed_remainder [])
            (\<lambda>role_instances. ok (Some role_instances))))))))))"

section \<open>Reconciling all roles\<close>

text \<open>
  The first loop of \<^verbatim>\<open>instance_roles\<close>. \<open>roles\<close> is the dictionary being filled, kept in
  insertion order; \<^verbatim>\<open>roles[role_name] = role_instances\<close> is \<open>AList.update\<close>.
\<close>

fun roles_loop ::
  "(string \<times> role_data) list \<Rightarrow> (string \<times> ec2_instance list option) list \<Rightarrow> string list
     \<Rightarrow> ((string \<times> ec2_instance list option) list \<times> string list, world) run" where
  "roles_loop [] roles roles_with_eips w = ok (roles, roles_with_eips) w"
| "roles_loop ((role_name, role_data) # rest) roles roles_with_eips w =
     (let desired_count = (case rd_count role_data of None \<Rightarrow> 0 | Some c \<Rightarrow> c);
          roles_with_eips' =
            (if (case rd_eip role_data of None \<Rightarrow> False | Some b \<Rightarrow> b) = True
             then roles_with_eips @ [role_name] else roles_with_eips)
      in case instance_role role_name role_data desired_count w of
           (Inl e, w') \<Rightarrow> (Inl e, w')
         | (Inr role_instances, w') \<Rightarrow>
             roles_loop rest (AList.update role_name role_instances roles)
               roles_with_eips' w')"

text \<open>The second loop: tag instances and volumes, role by role.\<close>

fun tag_roles_loop :: "(string \<times> ec2_instance list option) list \<Rightarrow> (unit, world) run" where
  "tag_roles_loop [] w = ok () w"
| "tag_roles_loop ((role_name, role_instances) # rest) w =
     (case tag_instances role_name role_instances w of
        (Inl e, w') \<Rightarrow> (Inl e, w')
      | (Inr _, w') \<Rightarrow> tag_roles_loop rest w')"

text \<open>
  Modelled from the spec: \<^verbatim>\<open>instance.allocate_eip()\<close> allocates a floating address,
  associates it with the instance and returns it.
\<close>

definition allocate_eip :: "ec2_instance \<Rightarrow> (string, world) run" where
  "allocate_eip i w = (Inr (public_ip w (inst_id i)), w\<lparr>eips := eips w @ [inst_id i]\<rparr>)"

fun eip_instances_loop :: "ec2_instance list \<Rightarrow> (unit, world) run" where
  "eip_instances_loop [] w = ok () w"
| "eip_instances_loop (i # rest) w =
     (case seq (emit (''allocating eip and associating with '' @ inst_identity i) ''info'')
         (\<lambda>_. seq (allocate_eip i)
         (\<lambda>eip. emit (''allocated eip '' @ eip @ '' and associated with ''
                       @ inst_identity i) ''info'')) w of
        (Inl e, w') \<Rightarrow> (Inl e, w')
      | (Inr _, w') \<Rightarrow> eip_instances_loop rest w')"

fun eip_roles_loop ::
  "(string \<times> ec2_instance list option) list \<Rightarrow> string list \<Rightarrow> (unit, world) run" where
  "eip_roles_loop roles [] w = ok () w"
| "eip_roles_loop roles (role_name # rest) w =
     (case (case map_of roles role_name of
              None \<Rightarrow> raise (KeyError role_name) w
            | Some None \<Rightarrow> raise (TypeError ''NoneType object is not iterable'') w
            | Some (Some role_instances) \<Rightarrow> eip_instances_loop role_instances w) of
        (Inl e, w') \<Rightarrow> (Inl e, w')
      | (Inr _, w') \<Rightarrow> eip_roles_loop roles rest w')"

definition instance_roles :: "(string \<times> role_data) list \<Rightarrow> (unit, world) run" where
  "instance_roles instance_role_cfg =
     seq (roles_loop instance_role_cfg [] [])
    (\<lambda>(roles, roles_with_eips).
     seq (tag_roles_loop roles)
    (\<lambda>_. eip_roles_loop roles roles_with_eips))"

section \<open>The build pipeline\<close>

text \<open>
  The methods \<^verbatim>\<open>route_tables\<close>, \<^verbatim>\<open>subnets\<close>, \<^verbatim>\<open>associate_route_tables_with_subnets\<close>,
  \<^verbatim>\<open>endpoints\<close>, \<^verbatim>\<open>security_groups\<close> and \<^verbatim>\<open>security_group_rules\<close> consist of calls to the
  provider, as do \<^verbatim>\<open>instance.wait_until_running()\<close> and \<^verbatim>\<open>evpc.lock_instances()\<close>. They
  are parameters here: each may change the state in any way and may raise anything.
\<close>

record collab =
  route_tables :: "(unit, world) run"
  subnets :: "(unit, world) run"
  associate_route_tables_with_subnets :: "(unit, world) run"
  endpoints :: "(unit, world) run"
  security_groups :: "(unit, world) run"
  security_group_rules :: "(unit, world) run"
  wait_until_running :: "ec2_instance \<Rightarrow> (unit, world) run"
  lock_instances :: "(unit, world) run"

text \<open>
  To speak about the order of the calls, \<^verbatim>\<open>_apply_all\<close> runs on a state that pairs the
  world with the list of stages entered so far. No stage can change that list.
\<close>

datatype stage =
    RouteTables | Subnets | Associations | Endpoints | KeyPairs | SecurityGroups
  | InstanceRoles | SecurityGroupRules | WaitRunning | LockInstances

type_synonym traced = "stage list \<times> world"

definition enter :: "stage \<Rightarrow> (unit, world) run \<Rightarrow> (unit, traced) run" where
  "enter st f = (\<lambda>(tr, w). case f w of (r, w') \<Rightarrow> (r, (tr @ [st], w')))"

definition untraced :: "('a, world) run \<Rightarrow> ('a, traced) run" where
  "untraced f = (\<lambda>(tr, w). case f w of (r, w') \<Rightarrow> (r, (tr, w')))"

text \<open>\<^verbatim>\<open>self.amis = config['amis']\<close>.\<close>

definition set_amis :: "(unit, world) run" where
  "set_amis w =
     (case cfg_amis (config w) of
        None \<Rightarrow> (Inl (KeyError ''amis''), w)
      | Some a \<Rightarrow> (Inr (), w\<lparr>amis := a\<rparr>))"

text \<open>
  \<^verbatim>\<open>self.key_pairs(config.get('key_pairs', []))\<close>: when the configuration has the key, the
  list the method appends to is the configuration's own; otherwise it is a fresh one.
\<close>

definition key_pairs_stage :: "(unit, world) run" where
  "key_pairs_stage w =
     (case cfg_key_pairs (config w) of
        None \<Rightarrow> snd (key_pairs [] w)
      | Some key_pair_cfg \<Rightarrow>
          (case key_pairs key_pair_cfg w of
             (key_pair_cfg', r, w') \<Rightarrow>
               (r, w'\<lparr>config := (config w')\<lparr>cfg_key_pairs := Some key_pair_cfg'\<rparr>\<rparr>)))"

definition instance_roles_stage :: "(unit, world) run" where
  "instance_roles_stage w =
     instance_roles (case cfg_instance_roles (config w) of None \<Rightarrow> [] | Some r \<Rightarrow> r) w"

fun wait_loop :: "collab \<Rightarrow> ec2_instance list \<Rightarrow> (unit, world) run" where
  "wait_loop c [] w = ok () w"
| "wait_loop c (i # rest) w =
     (case seq (emit (''waiting for '' @ inst_identity i @ '' to start'') ''info'')
               (\<lambda>_. wait_until_running c i) w of
        (Inl e, w') \<Rightarrow> (Inl e, w')
      | (Inr _, w') \<Rightarrow> wait_loop c rest w')"

definition wait_stage :: "collab \<Rightarrow> (unit, world) run" where
  "wait_stage c w = wait_loop c (instances w) w"

text \<open>The \<^verbatim>\<open>try\<close> around the locking, with its bare \<^verbatim>\<open>except\<close>.\<close>

definition lock_stage :: "collab \<Rightarrow> (unit, world) run" where
  "lock_stage c w =
     (case seq (emit ''locking instances to prevent termination'' ''info'')
               (\<lambda>_. lock_instances c) w of
        (Inl e, w') \<Rightarrow> emit ''could not lock instances, continuing...'' ''warning'' w'
      | (Inr u, w') \<Rightarrow> (Inr u, w'))"

text \<open>\<^verbatim>\<open>_apply_all(config)\<close>, where \<^verbatim>\<open>config\<close> is \<^verbatim>\<open>self.config\<close>.\<close>

definition apply_all_inner :: "collab \<Rightarrow> (unit, traced) run" where
  "apply_all_inner c =
     seq (untraced set_amis)
    (\<lambda>_. seq (enter RouteTables (route_tables c))
    (\<lambda>_. seq (enter Subnets (subnets c))
    (\<lambda>_. seq (enter Associations (associate_route_tables_with_subnets c))
    (\<lambda>_. seq (enter Endpoints (endpoints c))
    (\<lambda>_. seq (enter KeyPairs key_pairs_stage)
    (\<lambda>_. seq (enter SecurityGroups (security_groups c))
    (\<lambda>_. seq (enter InstanceRoles instance_roles_stage)
    (\<lambda>_. seq (enter SecurityGroupRules (security_group_rules c))
    (\<lambda>_. seq (enter WaitRunning (wait_stage c))
    (\<lambda>_. seq (enter LockInstances (lock_stage c))
    (\<lambda>_. untraced (emit ''done! don't you look awesome. : )'' ''info''))))))))))))"

text \<open>
  \<^verbatim>\<open>traceback.format_exc()\<close> is some text that depends on the exception; any function
  would do for what follows.
\<close>

definition format_exc :: "exn \<Rightarrow> string" where
  "format_exc e = ''Traceback (most recent call last): '' @ str_exn e"

text \<open>What the \<^verbatim>\<open>except Exception as e\<close> clause of \<^verbatim>\<open>apply_all\<close> writes to the log.\<close>

definition failure_report :: "exn \<Rightarrow> (string \<times> string) list" where
  "failure_report e =
     [(''error'', ''Botoform failed to build environment!''),
      (''error'', ''Failure reason: '' @ str_exn e),
      (''debug'', format_exc e),
      (''error'', ''Tearing down failed environment!'')]"

text \<open>
  \<^verbatim>\<open>apply_all()\<close>. The four \<^verbatim>\<open>emit\<close> calls are followed by a commented-out
  \<^verbatim>\<open>self.evpc.terminate()\<close> and a bare \<^verbatim>\<open>raise\<close>.
\<close>

definition apply_all :: "collab \<Rightarrow> (unit, traced) run" where
  "apply_all c s =
     (case apply_all_inner c s of
        (Inl e, (tr, w)) \<Rightarrow>
          (case seq (emit ''Botoform failed to build environment!'' ''error'')
              (\<lambda>_. seq (emit (''Failure reason: '' @ str_exn e) ''error'')
              (\<lambda>_. seq (emit (format_exc e) ''debug'')
              (\<lambda>_. emit ''Tearing down failed environment!'' ''error''))) w of
             (_, w') \<Rightarrow> (Inl e, (tr, w')))
      | (Inr u, s') \<Rightarrow> (Inr u, s'))"

section \<open>The address allocator\<close>

text \<open>
  Modelled from the spec: \<^verbatim>\<open>allocate\<close> is imported from \<^verbatim>\<open>botoform.subnetallocator\<close>,
  which is not part of the source at hand; \<^verbatim>\<open>subnets\<close> only calls it. What follows is
  section 4.1 of the specification, step by step. An address block is a base address
  and a prefix length over 32-bit addresses; a size request is a capacity, a number of
  addresses.
\<close>

datatype alloc_error = CapacityExceeded

record address_block =
  base :: nat
  prefix_len :: nat

definition addr_bits :: nat where
  "addr_bits = 32"

definition capacity :: "address_block \<Rightarrow> nat" where
  "capacity b = 2 ^ (addr_bits - prefix_len b)"

definition addresses :: "address_block \<Rightarrow> nat set" where
  "addresses b = {base b ..< base b + capacity b}"

text \<open>
  Modelled from the spec: an address block is a network prefix, so the host bits of its
  base address are zero and the block lies within the address space.
\<close>

definition valid_block :: "address_block \<Rightarrow> bool" where
  "valid_block b \<longleftrightarrow>
     prefix_len b \<le> addr_bits \<and> base b mod capacity b = 0
     \<and> base b + capacity b \<le> 2 ^ addr_bits"

fun log2 :: "nat \<Rightarrow> nat" where
  "log2 n = (if n < 2 then 0 else Suc (log2 (n div 2)))"

definition is_pow2 :: "nat \<Rightarrow> bool" where
  "is_pow2 n \<longleftrightarrow> n = 2 ^ log2 n"

text \<open>
  Modelled from the spec: step 3 rounds the cursor up to the next multiple of the
  block's capacity.
\<close>

definition align_up :: "nat \<Rightarrow> nat \<Rightarrow> nat" where
  "align_up cursor c = ((cursor + c - 1) div c) * c"

definition block_of :: "nat \<Rightarrow> nat \<Rightarrow> address_block" where
  "block_of start c = \<lparr> base = start, prefix_len = addr_bits - log2 c \<rparr>"

text \<open>
  Modelled from the spec: steps 3 and 4, over the requests in sorted order, each with its
  original position:
  assign \<open>[cursor, cursor + c)\<close> after alignment, fail when the block would end beyond
  the parent's end, and move the cursor to the block's end.
\<close>

fun place ::
  "nat \<Rightarrow> nat \<Rightarrow> (nat \<times> nat) list \<Rightarrow> alloc_error + (nat \<times> address_block) list" where
  "place parent_end cursor [] = Inr []"
| "place parent_end cursor ((i, c) # rest) =
     (let start = align_up cursor c
      in if start + c > parent_end then Inl CapacityExceeded
         else (case place parent_end (start + c) rest of
                 Inl e \<Rightarrow> Inl e
               | Inr assigned \<Rightarrow> Inr ((i, block_of start c) # assigned)))"

text \<open>
  Modelled from the spec: step 1 rejects, step 2 sorts by decreasing size (stably, so
  equal sizes keep their original order), step 5 puts the blocks back into the order of
  the requests.
\<close>

definition allocate :: "address_block \<Rightarrow> nat list \<Rightarrow> alloc_error + address_block list" where
  "allocate parent sizes =
     (if capacity parent < sum_list sizes \<or> \<not> list_all is_pow2 sizes
      then Inl CapacityExceeded
      else
        (let requests = sort_key (\<lambda>(i, c). - int c) (enumerate 0 sizes)
         in case place (base parent + capacity parent) (base parent) requests of
              Inl e \<Rightarrow> Inl e
            | Inr assigned \<Rightarrow> Inr (map snd (sort_key fst assigned))))"

section \<open>Vocabulary for the statements\<close>

text \<open>
  The tags that \<^verbatim>\<open>tag_instances\<close> is to leave on an instance of a role, and on the
  volumes attached to it.
\<close>

definition instance_tagged_for :: "string \<Rightarrow> string \<Rightarrow> world \<Rightarrow> ec2_instance \<Rightarrow> bool" where
  "instance_tagged_for vpc role_name w i \<longleftrightarrow>
     tag_of w (InstanceId (inst_id i)) ''Name''
       = Some (vpc @ ''-'' @ role_name @ ''-'' @ lstrip ''i-'' (inst_id i))
     \<and> tag_of w (InstanceId (inst_id i)) ''role'' = Some role_name"

definition tagged_for :: "string \<Rightarrow> string \<Rightarrow> world \<Rightarrow> ec2_instance \<Rightarrow> bool" where
  "tagged_for vpc role_name w i \<longleftrightarrow>
     instance_tagged_for vpc role_name w i
     \<and> (\<forall>v \<in> set (inst_volumes i).
           tag_of w (VolumeId v) ''Name''
             = Some (vpc @ ''-'' @ role_name @ ''-'' @ lstrip ''i-'' (inst_id i)))"

definition share_volume :: "ec2_instance \<Rightarrow> ec2_instance \<Rightarrow> bool" where
  "share_volume i j \<longleftrightarrow> (\<exists>v \<in> set (inst_volumes i). v \<in> set (inst_volumes j))"

text \<open>
  The counts that the loop of \<^verbatim>\<open>instance_role\<close> computes, subnet after subnet, from the
  floor share, the remainder and the number of the role's instances already in each
  subnet: \<open>subnet_count\<close> iterated with the remainder it hands on.
\<close>

fun subnet_counts :: "int \<Rightarrow> int \<Rightarrow> int list \<Rightarrow> int list" where
  "subnet_counts needed_per_subnet needed_remainder [] = []"
| "subnet_counts needed_per_subnet needed_remainder (existing_in_subnet # rest) =
     (let (needed_remainder', count) =
            subnet_count needed_per_subnet needed_remainder existing_in_subnet
      in count # subnet_counts needed_per_subnet needed_remainder' rest)"

text \<open>\<^verbatim>\<open>len(self.evpc.get_role(role_name, subnet.instances.all()))\<close>.\<close>

definition existing_in_subnet :: "world \<Rightarrow> string \<Rightarrow> subnet \<Rightarrow> int" where
  "existing_in_subnet w role_name sn =
     int (length (get_role w role_name (subnet_instances w sn)))"

text \<open>
  The stages of \<^verbatim>\<open>_apply_all\<close> as a list, in the order of the calls, and the same
  sequencing over any such list; \<open>apply_all_inner_run_stages\<close> below shows that
  \<^verbatim>\<open>_apply_all\<close> is \<open>run_stages\<close> over \<open>pipeline\<close>.
\<close>

definition pipeline :: "collab \<Rightarrow> (stage \<times> (unit, world) run) list" where
  "pipeline c =
     [(RouteTables, route_tables c),
      (Subnets, subnets c),
      (Associations, associate_route_tables_with_subnets c),
      (Endpoints, endpoints c),
      (KeyPairs, key_pairs_stage),
      (SecurityGroups, security_groups c),
      (InstanceRoles, instance_roles_stage),
      (SecurityGroupRules, security_group_rules c),
      (WaitRunning, wait_stage c),
      (LockInstances, lock_stage c)]"

definition stage_order :: "stage list" where
  "stage_order =
     [RouteTables, Subnets, Associations, Endpoints, KeyPairs, SecurityGroups,
      InstanceRoles, SecurityGroupRules, WaitRunning, LockInstances]"

fun run_stages :: "(stage \<times> (unit, world) run) list \<Rightarrow> (unit, traced) run" where
  "run_stages [] = ok ()"
| "run_stages ((st, f) # rest) = seq (enter st f) (\<lambda>_. run_stages rest)"

text \<open>
  The instances that the provider is still to hand out do not carry the role's tag yet
  (they are tagged by \<^verbatim>\<open>tag_instances\<close>, after all launches).
\<close>

definition fresh_supply :: "world \<Rightarrow> string \<Rightarrow> bool" where
  "fresh_supply w role_name \<longleftrightarrow>
     (\<forall>k \<ge> minted w. tag_of w (InstanceId (inst_id (mint w k))) ''role'' \<noteq> Some role_name)"

text \<open>The subnet and the count of each launch call.\<close>

definition issued :: "world \<Rightarrow> (string \<times> int) list" where
  "issued w = map (\<lambda>l. (l_subnet l, l_count l)) (launches w)"

text \<open>
  The blocks that follow one another from a cursor, with no padding between them:
  what \<open>place\<close> assigns when no alignment step has to move the cursor.
\<close>

fun consecutive :: "nat \<Rightarrow> (nat \<times> nat) list \<Rightarrow> (nat \<times> address_block) list" where
  "consecutive cursor [] = []"
| "consecutive cursor ((i, c) # rest) = (i, block_of cursor c) # consecutive (cursor + c) rest"

text \<open>
  What reconciling roles leaves alone: the builder's settings and the named resources
  and tags of the account.
\<close>

definition same_setup :: "world \<Rightarrow> world \<Rightarrow> bool" where
  "same_setup w w' \<longleftrightarrow>
     vpc_name w' = vpc_name w \<and> region_name w' = region_name w \<and> config w' = config w
     \<and> amis w' = amis w \<and> key_pair_store w' = key_pair_store w
     \<and> security_group_store w' = security_group_store w
     \<and> subnet_store w' = subnet_store w \<and> tags w' = tags w
     \<and> launch_error w' = launch_error w \<and> mint w' = mint w"

definition keeps_setup :: "('a, world) run \<Rightarrow> bool" where
  "keeps_setup m \<longleftrightarrow> (\<forall>w r w'. m w = (r, w') \<longrightarrow> same_setup w w')"

section \<open>Concrete states and configurations\<close>

text \<open>An account with nothing in it, and a provider that hands out instance \<open>n\<close> with one volume.\<close>

definition no_config :: config where
  "no_config = \<lparr> cfg_amis = None, cfg_key_pairs = None, cfg_instance_roles = None \<rparr>"

definition fresh_instance :: "nat \<Rightarrow> ec2_instance" where
  "fresh_instance n =
     \<lparr> inst_id = ''i-0a'' @ str_nat n, inst_identity = ''i-0a'' @ str_nat n,
       inst_subnet = [], inst_volumes = [''vol-0a'' @ str_nat n] \<rparr>"

definition empty_world :: world where
  "empty_world =
     \<lparr> vpc_name = ''dev'', region_name = ''us-west-2'', config = no_config,
       amis = [], logs = [], key_pair_store = [], security_group_store = [],
       subnet_store = [], instances = [], tags = (\<lambda>_. []), launches = [],
       launch_error = (\<lambda>_. None), mint = fresh_instance, minted = 0,
       uuid_count = 0, eips = [], public_ip = (\<lambda>_. ''198.51.100.7'') \<rparr>"

text \<open>The same account, with a configuration that lists one key pair.\<close>

definition ops_world :: world where
  "ops_world = empty_world \<lparr> config := no_config \<lparr> cfg_key_pairs := Some [''ops''] \<rparr> \<rparr>"

text \<open>An instance whose id begins with more than the literal \<^verbatim>\<open>i-\<close>.\<close>

definition odd_instance :: ec2_instance where
  "odd_instance =
     \<lparr> inst_id = ''i-i-9f'', inst_identity = ''i-i-9f'', inst_subnet = ''subnet-1'',
       inst_volumes = [''vol-1'', ''vol-2''] \<rparr>"

text \<open>
  A VPC with three subnets and an image table. \<open>web_world\<close> has one instance of role
  \<open>web\<close> in the second and one in the third subnet; \<open>uneven_world\<close> has two in the
  second subnet; \<open>db_world\<close> has three instances of role \<open>db\<close> in the first subnet.
\<close>

definition subnet_a :: subnet where
  "subnet_a = \<lparr> subnet_id = ''subnet-a'', subnet_tags = [(''Name'', ''dev-private-1'')] \<rparr>"

definition subnet_b :: subnet where
  "subnet_b = \<lparr> subnet_id = ''subnet-b'', subnet_tags = [(''Name'', ''dev-private-2'')] \<rparr>"

definition subnet_c :: subnet where
  "subnet_c = \<lparr> subnet_id = ''subnet-c'', subnet_tags = [(''Name'', ''dev-private-3'')] \<rparr>"

definition running :: "string \<Rightarrow> string \<Rightarrow> ec2_instance" where
  "running ident sn =
     \<lparr> inst_id = ident, inst_identity = ident, inst_subnet = sn, inst_volumes = [] \<rparr>"

definition base_world :: world where
  "base_world =
     empty_world
       \<lparr> amis := [(''ubuntu'', [(''us-west-2'', ''ami-1234''), (''us-east-1'', ''ami-5678'')]),
                  (''centos'', [(''us-east-1'', ''ami-9abc'')])],
         key_pair_store := [''default''],
         subnet_store := [(''private-1'', subnet_a), (''private-2'', subnet_b),
                          (''private-3'', subnet_c)] \<rparr>"

definition web_world :: world where
  "web_world =
     base_world
       \<lparr> instances := [running ''i-b1'' ''subnet-b'', running ''i-c1'' ''subnet-c''],
         tags := (\<lambda>r. if r = InstanceId ''i-b1'' \<or> r = InstanceId ''i-c1''
                        then [(''role'', ''web'')] else []) \<rparr>"

definition uneven_world :: world where
  "uneven_world =
     base_world
       \<lparr> instances := [running ''i-b1'' ''subnet-b'', running ''i-b2'' ''subnet-b''],
         tags := (\<lambda>r. if r = InstanceId ''i-b1'' \<or> r = InstanceId ''i-b2''
                        then [(''role'', ''web'')] else []) \<rparr>"

definition db_world :: world where
  "db_world =
     base_world
       \<lparr> instances := [running ''i-a1'' ''subnet-a'', running ''i-a2'' ''subnet-a'',
                        running ''i-a3'' ''subnet-a''],
         tags := (\<lambda>r. if r = InstanceId ''i-a1'' \<or> r = InstanceId ''i-a2''
                           \<or> r = InstanceId ''i-a3''
                        then [(''role'', ''db'')] else []) \<rparr>"

text \<open>Role entries of a configuration.\<close>

definition role_in :: "string list \<Rightarrow> int \<Rightarrow> role_data" where
  "role_in subnet_names n =
     \<lparr> rd_ami = Some ''ubuntu'', rd_count = Some n, rd_eip = None, rd_key_pair = None,
       rd_security_groups = None, rd_subnets = Some subnet_names,
       rd_instance_type = Some ''t2.micro'' \<rparr>"

text \<open>Collaborators that do nothing, and ones whose locking call fails.\<close>

definition quiet :: collab where
  "quiet =
     \<lparr> route_tables = ok (), subnets = ok (),
       associate_route_tables_with_subnets = ok (), endpoints = ok (),
       security_groups = ok (), security_group_rules = ok (),
       wait_until_running = (\<lambda>_. ok ()), lock_instances = ok () \<rparr>"

definition lock_denied :: collab where
  "lock_denied = quiet \<lparr> lock_instances := raise (ClientError ''UnauthorizedOperation'') \<rparr>"

definition subnets_denied :: collab where
  "subnets_denied = quiet \<lparr> subnets := raise (ClientError ''UnauthorizedOperation'') \<rparr>"

definition build_of :: "world \<Rightarrow> (string \<times> role_data) list \<Rightarrow> world" where
  "build_of w roles =
     w \<lparr> config := \<lparr> cfg_amis = Some (amis w), cfg_key_pairs = None,
                      cfg_instance_roles = Some roles \<rparr> \<rparr>"

text \<open>
  Role sections: one whose first role names no subnets, and one whose first role uses
  an image that the table lists for another region only.
\<close>

definition no_subnets_roles :: "(string \<times> role_data) list" where
  "no_subnets_roles = [(''web'', role_in [] 2), (''db'', role_in [''private-1''] 1)]"

definition centos_roles :: "(string \<times> role_data) list" where
  "centos_roles =
     [(''web'', (role_in [''private-1''] 1)\<lparr>rd_ami := Some ''centos''\<rparr>),
      (''db'', role_in [''private-1''] 1)]"

text \<open>
  Two instances of another role in the first subnet, one instance of role \<open>web\<close> in the
  second.
\<close>

definition mixed_world :: world where
  "mixed_world =
     base_world
       \<lparr> instances := [running ''i-a1'' ''subnet-a'', running ''i-a2'' ''subnet-a'',
                        running ''i-b1'' ''subnet-b''],
         tags := (\<lambda>r. if r = InstanceId ''i-a1'' \<or> r = InstanceId ''i-a2''
                        then [(''role'', ''db'')]
                        else if r = InstanceId ''i-b1'' then [(''role'', ''web'')] else []) \<rparr>"

text \<open>A parent block of 256 addresses and four requests, not in order of size.\<close>

definition parent_24 :: address_block where
  "parent_24 = \<lparr> base = 2560, prefix_len = 24 \<rparr>"

definition mixed_sizes :: "nat list" where
  "mixed_sizes = [32, 64, 32, 128]"

text \<open>A role section whose second role uses the image without an entry for the region.\<close>

definition centos_second :: "(string \<times> role_data) list" where
  "centos_second =
     [(''db'', role_in [''private-1''] 1)]
     @ (''web'', (role_in [''private-1''] 1)\<lparr>rd_ami := Some ''centos''\<rparr>)
     # [(''cache'', role_in [''private-2''] 1)]"

section \<open>Key pairs: the default key pair\<close>

lemma key_pairs_loop_store:
  "\<exists>w'. key_pairs_loop ns w = (Inr (), w')
     \<and> set (key_pair_store w') = set (key_pair_store w) \<union> set ns"
proof (induction ns arbitrary: w)
  case Nil
  show ?case by (simp add: ok_def)
next
  case (Cons n ns)
  show ?case
  proof (cases "get_key_pair w n = None")
    case True
    let ?w1 = "(w\<lparr>logs := logs w @ [(''info'', ''creating key pair '' @ n)]\<rparr>)
                 \<lparr>key_pair_store := key_pair_store w @ [n]\<rparr>"
    from Cons.IH [of ?w1] obtain w' where
      "key_pairs_loop ns ?w1 = (Inr (), w')"
      "set (key_pair_store w') = set (key_pair_store ?w1) \<union> set ns"
      by blast
    with True show ?thesis
      by (auto simp: seq_def emit_def create_key_pair_def)
  next
    case False
    then have "n \<in> set (key_pair_store w)"
      by (simp add: get_key_pair_def split: if_splits)
    moreover from Cons.IH [of w] obtain w' where
      "key_pairs_loop ns w = (Inr (), w')"
      "set (key_pair_store w') = set (key_pair_store w) \<union> set ns"
      by blast
    ultimately show ?thesis using False
      by (auto simp: ok_def)
  qed
qed

text \<open>
  Claim C9. Whatever list \<^verbatim>\<open>key_pairs\<close> is given, the empty one included, the list is
  afterwards the old one with \<^verbatim>\<open>'default'\<close> appended, the method returns normally, and
  a key pair exists for every name of the resulting list, hence for \<^verbatim>\<open>'default'\<close>. The
  list is changed in place: when it is the one held by the configuration, the
  configuration holds the longer list after the stage.
\<close>

theorem key_pairs_appends_default:
  "fst (key_pairs key_pair_cfg w) = key_pair_cfg @ [''default'']
   \<and> fst (snd (key_pairs key_pair_cfg w)) = Inr ()
   \<and> (\<forall>n \<in> set (fst (key_pairs key_pair_cfg w)).
          get_key_pair (snd (snd (key_pairs key_pair_cfg w))) n = Some n)
   \<and> get_key_pair (snd (snd (key_pairs key_pair_cfg w))) ''default'' = Some ''default''
   \<and> (cfg_key_pairs (config w) = Some key_pair_cfg
        \<longrightarrow> fst (key_pairs_stage w) = Inr ()
            \<and> cfg_key_pairs (config (snd (key_pairs_stage w)))
                = Some (key_pair_cfg @ [''default'']))"
proof -
  obtain w' where run: "key_pairs_loop (key_pair_cfg @ [''default'']) w = (Inr (), w')"
    and store: "set (key_pair_store w')
                  = set (key_pair_store w) \<union> set (key_pair_cfg @ [''default''])"
    using key_pairs_loop_store by blast
  from store have "\<forall>n \<in> set (key_pair_cfg @ [''default'']). get_key_pair w' n = Some n"
    by (simp add: get_key_pair_def)
  with run show ?thesis
    by (simp add: key_pairs_def key_pairs_stage_def Let_def)
qed

theorem key_pairs_appends_default_witness:
  "fst (key_pairs [] empty_world) = [''default'']
   \<and> ''default'' \<in> set (fst (key_pairs [] empty_world))
   \<and> get_key_pair (snd (snd (key_pairs [] empty_world))) ''default'' = Some ''default''
   \<and> get_key_pair empty_world ''default'' = None
   \<and> cfg_key_pairs (config ops_world) = Some [''ops'']
   \<and> cfg_key_pairs (config (snd (key_pairs_stage ops_world))) = Some [''ops'', ''default'']"
  using key_pairs_appends_default [of "[]" empty_world]
    key_pairs_appends_default [of "[''ops'']" ops_world]
  by (simp add: get_key_pair_def empty_world_def ops_world_def no_config_def)

section \<open>Tagging instances and volumes\<close>

lemma tag_of_update_tags:
  "update_tags r kvs w = (Inr (), w') \<Longrightarrow>
   tag_of w' r' k = (if r' = r then map_of (fold (\<lambda>(k, v). AList.update k v) kvs (tags w r)) k else tag_of w r' k)"
  by (auto simp: update_tags_def tag_of_def)

lemma tag_volumes_effect:
  "\<exists>w'. tag_volumes i h vs w = (Inr (), w') \<and> vpc_name w' = vpc_name w
     \<and> (\<forall>r k. tag_of w' r k =
           (if (\<exists>v \<in> set vs. r = VolumeId v) \<and> k = ''Name'' then Some h else tag_of w r k))"
proof (induction vs arbitrary: w)
  case Nil
  show ?case by (simp add: ok_def)
next
  case (Cons v vs)
  define w1 where "w1 = snd (seq (emit (''tagging volumes for instance '' @ inst_identity i
                       @ '' (Name:'' @ h @ '')'') ''info'')
               (\<lambda>_. update_tags (VolumeId v) [(''Name'', h)]) w)"
  have step: "seq (emit (''tagging volumes for instance '' @ inst_identity i
                       @ '' (Name:'' @ h @ '')'') ''info'')
               (\<lambda>_. update_tags (VolumeId v) [(''Name'', h)]) w = (Inr (), w1)"
    by (simp add: w1_def seq_def emit_def update_tags_def)
  have v1: "vpc_name w1 = vpc_name w"
    by (simp add: w1_def seq_def emit_def update_tags_def)
  have t1: "tag_of w1 r k = (if r = VolumeId v \<and> k = ''Name'' then Some h else tag_of w r k)" for r k
    by (simp add: w1_def seq_def emit_def update_tags_def tag_of_def update_conv')
  from Cons.IH [of w1] obtain w' where
    run: "tag_volumes i h vs w1 = (Inr (), w')" and v': "vpc_name w' = vpc_name w1"
    and t': "\<forall>r k. tag_of w' r k =
           (if (\<exists>v \<in> set vs. r = VolumeId v) \<and> k = ''Name'' then Some h else tag_of w1 r k)"
    by blast
  have "tag_volumes i h (v # vs) w = (Inr (), w')"
    using step run by simp
  moreover have "vpc_name w' = vpc_name w" using v' v1 by simp
  moreover have "\<forall>r k. tag_of w' r k =
           (if (\<exists>u \<in> set (v # vs). r = VolumeId u) \<and> k = ''Name'' then Some h else tag_of w r k)"
    using t' t1 by auto
  ultimately show ?case by blast
qed

lemma tag_instance_effect:
  "\<exists>w'. tag_instance role_name i w = (Inr (), w') \<and> vpc_name w' = vpc_name w
     \<and> (\<forall>r k. tag_of w' r k =
           (if (r = InstanceId (inst_id i) \<or> (\<exists>v \<in> set (inst_volumes i). r = VolumeId v)) \<and> k = ''Name''
            then Some (vpc_name w @ ''-'' @ role_name @ ''-'' @ lstrip ''i-'' (inst_id i))
            else if r = InstanceId (inst_id i) \<and> k = ''role'' then Some role_name
            else tag_of w r k))"
proof -
  define h where "h = vpc_name w @ ''-'' @ role_name @ ''-'' @ lstrip ''i-'' (inst_id i)"
  define w1 where "w1 = snd (seq (emit (''tagging instance '' @ inst_identity i @ '' (Name:'' @ h
                     @ '', role:'' @ role_name @ '')'') ''info'')
        (\<lambda>_. update_tags (InstanceId (inst_id i)) [(''Name'', h), (''role'', role_name)]) w)"
  have v1: "vpc_name w1 = vpc_name w"
    by (simp add: w1_def seq_def emit_def update_tags_def)
  have t1: "tag_of w1 r k =
       (if r = InstanceId (inst_id i) \<and> k = ''Name'' then Some h
        else if r = InstanceId (inst_id i) \<and> k = ''role'' then Some role_name
        else tag_of w r k)" for r k
    by (simp add: w1_def seq_def emit_def update_tags_def tag_of_def update_conv')
  obtain w' where run: "tag_volumes i h (inst_volumes i) w1 = (Inr (), w')"
    and v': "vpc_name w' = vpc_name w1"
    and t': "\<forall>r k. tag_of w' r k =
           (if (\<exists>v \<in> set (inst_volumes i). r = VolumeId v) \<and> k = ''Name'' then Some h else tag_of w1 r k)"
    using tag_volumes_effect by blast
  have "tag_instance role_name i w = (Inr (), w')"
    using run by (simp add: tag_instance_def Let_def seq_def emit_def update_tags_def w1_def h_def)
  moreover have "vpc_name w' = vpc_name w" using v' v1 by simp
  moreover have "\<forall>r k. tag_of w' r k =
           (if (r = InstanceId (inst_id i) \<or> (\<exists>v \<in> set (inst_volumes i). r = VolumeId v)) \<and> k = ''Name''
            then Some h
            else if r = InstanceId (inst_id i) \<and> k = ''role'' then Some role_name
            else tag_of w r k)"
    using t' t1 by auto
  ultimately show ?thesis unfolding h_def by blast
qed

lemma tag_instance_tagged:
  assumes "tag_instance role_name i w = (Inr (), w')"
  shows "tagged_for (vpc_name w) role_name w' i"
  using tag_instance_effect [of role_name i w] assms
  by (auto simp: tagged_for_def instance_tagged_for_def)

lemma tag_instance_keeps_instance_tags:
  assumes "tag_instance role_name i w = (Inr (), w')"
    and "instance_tagged_for (vpc_name w) role_name w x"
  shows "instance_tagged_for (vpc_name w) role_name w' x"
  using tag_instance_effect [of role_name i w] assms
  by (auto simp: instance_tagged_for_def)

lemma tag_instances_loop_instance_tags:
  "\<exists>w'. tag_instances_loop role_name is w = (Inr (), w') \<and> vpc_name w' = vpc_name w
     \<and> (\<forall>i \<in> set is. instance_tagged_for (vpc_name w) role_name w' i)
     \<and> (\<forall>x. instance_tagged_for (vpc_name w) role_name w x
             \<longrightarrow> instance_tagged_for (vpc_name w) role_name w' x)"
proof (induction "is" arbitrary: w)
  case Nil
  show ?case by (simp add: ok_def)
next
  case (Cons i rest)
  obtain w1 where s1: "tag_instance role_name i w = (Inr (), w1)" and v1: "vpc_name w1 = vpc_name w"
    using tag_instance_effect [of role_name i w] by blast
  from Cons.IH [of w1] v1 obtain w' where
    run: "tag_instances_loop role_name rest w1 = (Inr (), w')"
    and v': "vpc_name w' = vpc_name w"
    and all: "\<forall>j \<in> set rest. instance_tagged_for (vpc_name w) role_name w' j"
    and keep: "\<forall>x. instance_tagged_for (vpc_name w) role_name w1 x
             \<longrightarrow> instance_tagged_for (vpc_name w) role_name w' x"
    by auto
  have "instance_tagged_for (vpc_name w) role_name w1 i"
    using tag_instance_tagged [OF s1] by (simp add: tagged_for_def)
  with keep have hd: "instance_tagged_for (vpc_name w) role_name w' i" by blast
  have "tag_instances_loop role_name (i # rest) w = (Inr (), w')"
    using s1 run by simp
  moreover have "\<forall>j \<in> set (i # rest). instance_tagged_for (vpc_name w) role_name w' j"
    using hd all by simp
  moreover have "\<forall>x. instance_tagged_for (vpc_name w) role_name w x
             \<longrightarrow> instance_tagged_for (vpc_name w) role_name w' x"
    using keep tag_instance_keeps_instance_tags [OF s1] by blast
  ultimately show ?case using v' by blast
qed

lemma tag_instance_keeps:
  assumes "tag_instance role_name i w = (Inr (), w')"
    and "tagged_for (vpc_name w) role_name w x"
    and "share_volume x i \<longrightarrow> inst_id x = inst_id i"
  shows "tagged_for (vpc_name w) role_name w' x"
proof -
  from tag_instance_effect [of role_name i w] assms(1)
  have t: "\<forall>r k. tag_of w' r k =
           (if (r = InstanceId (inst_id i) \<or> (\<exists>v \<in> set (inst_volumes i). r = VolumeId v)) \<and> k = ''Name''
            then Some (vpc_name w @ ''-'' @ role_name @ ''-'' @ lstrip ''i-'' (inst_id i))
            else if r = InstanceId (inst_id i) \<and> k = ''role'' then Some role_name
            else tag_of w r k)"
    by auto
  show ?thesis
  proof (cases "inst_id x = inst_id i")
    case True
    with t assms(2) show ?thesis
      by (auto simp: tagged_for_def instance_tagged_for_def)
  next
    case False
    with assms(3) have "\<forall>v \<in> set (inst_volumes x). v \<notin> set (inst_volumes i)"
      by (auto simp: share_volume_def)
    with t assms(2) False show ?thesis
      by (auto simp: tagged_for_def instance_tagged_for_def)
  qed
qed

lemma tag_instances_loop_tagged:
  assumes "\<forall>i \<in> set is. \<forall>j \<in> set is. share_volume i j \<longrightarrow> inst_id i = inst_id j"
  shows "\<exists>w'. tag_instances_loop role_name is w = (Inr (), w') \<and> vpc_name w' = vpc_name w
     \<and> (\<forall>i \<in> set is. tagged_for (vpc_name w) role_name w' i)
     \<and> (\<forall>x. tagged_for (vpc_name w) role_name w x
             \<and> (\<forall>j \<in> set is. share_volume x j \<longrightarrow> inst_id x = inst_id j)
             \<longrightarrow> tagged_for (vpc_name w) role_name w' x)"
  using assms
proof (induction "is" arbitrary: w)
  case Nil
  show ?case by (simp add: ok_def)
next
  case (Cons i rest)
  obtain w1 where s1: "tag_instance role_name i w = (Inr (), w1)" and v1: "vpc_name w1 = vpc_name w"
    using tag_instance_effect [of role_name i w] by blast
  from Cons.prems have rest: "\<forall>a \<in> set rest. \<forall>b \<in> set rest. share_volume a b \<longrightarrow> inst_id a = inst_id b"
    and head: "\<forall>j \<in> set rest. share_volume i j \<longrightarrow> inst_id i = inst_id j"
    by auto
  from Cons.IH [OF rest, of w1] v1 obtain w' where
    run: "tag_instances_loop role_name rest w1 = (Inr (), w')"
    and v': "vpc_name w' = vpc_name w"
    and all: "\<forall>j \<in> set rest. tagged_for (vpc_name w) role_name w' j"
    and keep: "\<forall>x. tagged_for (vpc_name w) role_name w1 x
             \<and> (\<forall>j \<in> set rest. share_volume x j \<longrightarrow> inst_id x = inst_id j)
             \<longrightarrow> tagged_for (vpc_name w) role_name w' x"
    by auto
  have "tagged_for (vpc_name w) role_name w1 i"
    using tag_instance_tagged [OF s1] .
  with keep head have hd: "tagged_for (vpc_name w) role_name w' i" by blast
  have "tag_instances_loop role_name (i # rest) w = (Inr (), w')"
    using s1 run by simp
  moreover have "\<forall>j \<in> set (i # rest). tagged_for (vpc_name w) role_name w' j"
    using hd all by simp
  moreover have "\<forall>x. tagged_for (vpc_name w) role_name w x
             \<and> (\<forall>j \<in> set (i # rest). share_volume x j \<longrightarrow> inst_id x = inst_id j)
             \<longrightarrow> tagged_for (vpc_name w) role_name w' x"
  proof (intro allI impI)
    fix x
    assume a: "tagged_for (vpc_name w) role_name w x
             \<and> (\<forall>j \<in> set (i # rest). share_volume x j \<longrightarrow> inst_id x = inst_id j)"
    then have "tagged_for (vpc_name w) role_name w1 x"
      using tag_instance_keeps [OF s1, of x] by simp
    with a keep show "tagged_for (vpc_name w) role_name w' x" by simp
  qed
  ultimately show ?case using v' by blast
qed


text \<open>
  Claim C10. \<^verbatim>\<open>tag_instances\<close> returns normally, and afterwards every instance it was
  given has the Name tag \<^verbatim>\<open><vpc_name>-<role_name>-<suffix>\<close> and the role tag
  \<^verbatim>\<open><role_name>\<close>, where the suffix is the instance id without its leading run of
  characters from \<open>{i, -}\<close>. Every volume of the instance has the same Name tag; for the
  state after the whole call this needs that no volume is attached to two of the
  instances (a later instance would otherwise overwrite the tag).
\<close>

theorem tag_instances_names:
  "fst (tag_instances role_name (Some is) w) = Inr ()
   \<and> (\<forall>i \<in> set is.
         tag_of (snd (tag_instances role_name (Some is) w)) (InstanceId (inst_id i)) ''Name''
           = Some (vpc_name w @ ''-'' @ role_name @ ''-''
                    @ dropWhile (\<lambda>c. c = CHR ''i'' \<or> c = CHR ''-'') (inst_id i))
         \<and> tag_of (snd (tag_instances role_name (Some is) w)) (InstanceId (inst_id i)) ''role''
           = Some role_name)
   \<and> ((\<forall>i \<in> set is. \<forall>j \<in> set is. share_volume i j \<longrightarrow> inst_id i = inst_id j)
        \<longrightarrow> (\<forall>i \<in> set is. \<forall>v \<in> set (inst_volumes i).
               tag_of (snd (tag_instances role_name (Some is) w)) (VolumeId v) ''Name''
                 = Some (vpc_name w @ ''-'' @ role_name @ ''-''
                          @ dropWhile (\<lambda>c. c = CHR ''i'' \<or> c = CHR ''-'') (inst_id i))))"
proof -
  have strip: "lstrip ''i-'' s = dropWhile (\<lambda>c. c = CHR ''i'' \<or> c = CHR ''-'') s" for s
    by (simp add: lstrip_def)
  obtain w' where run: "tag_instances_loop role_name is w = (Inr (), w')"
    and inst: "\<forall>i \<in> set is. instance_tagged_for (vpc_name w) role_name w' i"
    using tag_instances_loop_instance_tags [of role_name "is" w] by blast
  have r: "tag_instances role_name (Some is) w = (Inr (), w')"
    using run by (simp add: tag_instances_def)
  have vols: "\<forall>i \<in> set is. \<forall>v \<in> set (inst_volumes i).
               tag_of w' (VolumeId v) ''Name''
                 = Some (vpc_name w @ ''-'' @ role_name @ ''-'' @ lstrip ''i-'' (inst_id i))"
    if apart: "\<forall>i \<in> set is. \<forall>j \<in> set is. share_volume i j \<longrightarrow> inst_id i = inst_id j"
  proof -
    from tag_instances_loop_tagged [OF apart, of role_name w] run
    have "\<forall>i \<in> set is. tagged_for (vpc_name w) role_name w' i" by auto
    then show ?thesis by (simp add: tagged_for_def)
  qed
  show ?thesis
    using inst vols by (simp add: r instance_tagged_for_def strip)
qed

theorem tag_instances_names_witness:
  "odd_instance \<in> set [odd_instance]
   \<and> ''vol-2'' \<in> set (inst_volumes odd_instance)
   \<and> tag_of (snd (tag_instances ''web'' (Some [odd_instance]) empty_world))
        (InstanceId ''i-i-9f'') ''Name'' = Some ''dev-web-9f''
   \<and> tag_of (snd (tag_instances ''web'' (Some [odd_instance]) empty_world))
        (InstanceId ''i-i-9f'') ''role'' = Some ''web''
   \<and> tag_of (snd (tag_instances ''web'' (Some [odd_instance]) empty_world))
        (VolumeId ''vol-2'') ''Name'' = Some ''dev-web-9f''"
  using tag_instances_names [of "''web''" "[odd_instance]" empty_world]
  by (simp add: odd_instance_def empty_world_def)

section \<open>The fair share of each subnet\<close>

lemma subnet_counts_Cons:
  "subnet_counts per r (e # es) =
     (if r \<noteq> 0 then (per - e + 1) # subnet_counts per (r - 1) es
      else (per - e) # subnet_counts per r es)"
  by (simp add: subnet_count_def Let_def)

declare subnet_counts.simps(2) [simp del]

lemma length_subnet_counts: "length (subnet_counts per r es) = length es"
  by (induction es arbitrary: r) (simp_all add: subnet_counts_Cons)

lemma subnet_counts_nth:
  "0 \<le> r \<Longrightarrow> i < length es \<Longrightarrow>
   subnet_counts per r es ! i + es ! i = (if int i < r then per + 1 else per)"
proof (induction es arbitrary: r i)
  case Nil
  then show ?case by simp
next
  case (Cons e es)
  show ?case
  proof (cases i)
    case 0
    with Cons.prems show ?thesis by (auto simp: subnet_counts_Cons)
  next
    case (Suc k)
    show ?thesis
    proof (cases "r = 0")
      case True
      with Cons.IH [of 0 k] Cons.prems Suc show ?thesis
        by (simp add: subnet_counts_Cons)
    next
      case False
      with Cons.prems have "0 \<le> r - 1" by simp
      from Cons.IH [OF this, of k] Cons.prems Suc False show ?thesis
        by (simp add: subnet_counts_Cons)
    qed
  qed
qed

lemma subnet_counts_sum:
  "0 \<le> r \<Longrightarrow>
   sum_list (map2 (+) (subnet_counts per r es) es) = per * int (length es) + min r (int (length es))"
proof (induction es arbitrary: r)
  case Nil
  then show ?case by simp
next
  case (Cons e es)
  show ?case
  proof (cases "r = 0")
    case True
    with Cons.IH [of 0] show ?thesis
      by (simp add: subnet_counts_Cons algebra_simps)
  next
    case False
    with Cons.prems have "0 \<le> r - 1" by simp
    from Cons.IH [OF this] False Cons.prems show ?thesis
      by (simp add: subnet_counts_Cons algebra_simps min_def)
  qed
qed

lemma sort_subnets_sorted:
  assumes "sort_subnets w found = Inr zones"
  shows "sorted (map (\<lambda>sn. length (subnet_instances w sn)) zones)"
    and "mset (map Some zones) = mset found"
proof -
  from assms obtain l where l: "those found = Some l"
    and z: "zones = sort_key (\<lambda>sn. length (subnet_instances w sn)) l"
    by (auto simp: sort_subnets_def split: option.splits)
  from z show "sorted (map (\<lambda>sn. length (subnet_instances w sn)) zones)"
    by simp
  have "those xs = Some ys \<Longrightarrow> map Some ys = xs" for xs :: "subnet option list" and ys
    by (induction xs arbitrary: ys) (auto split: option.splits)
  with l have "map Some l = found" by blast
  moreover have "mset zones = mset l" using z by simp
  ultimately show "mset (map Some zones) = mset found"
    by (metis mset_map)
qed

section \<open>The pipeline: order of the stages and failures\<close>

lemma seq_assoc: "seq (seq m f) g = seq m (\<lambda>x. seq (f x) g)"
  by (rule ext) (simp add: seq_def split: prod.splits sum.splits)

lemma seq_ok_unit: "seq m (\<lambda>_. ok ()) = (m :: (unit, 's) run)"
  by (rule ext) (auto simp: seq_def ok_def split: prod.splits sum.splits)

lemma seq_ok_left: "seq (ok x) f = f x"
  by (rule ext) (simp add: seq_def ok_def)

lemma apply_all_inner_run_stages:
  "apply_all_inner c =
     seq (untraced set_amis)
       (\<lambda>_. seq (run_stages (pipeline c))
       (\<lambda>_. untraced (emit ''done! don't you look awesome. : )'' ''info'')))"
  by (simp add: apply_all_inner_def pipeline_def seq_assoc seq_ok_left)

lemma map_fst_pipeline: "map fst (pipeline c) = stage_order"
  by (simp add: pipeline_def stage_order_def)

text \<open>What a run of some stages leaves in the trace.\<close>

lemma run_stages_trace:
  assumes "run_stages ps (tr0, w) = (r, (tr, w'))"
  shows "\<exists>k \<le> length ps. tr = tr0 @ map fst (take k ps)
           \<and> (r = Inr () \<longrightarrow> k = length ps)
           \<and> (r \<noteq> Inr () \<longrightarrow> 0 < k)
           \<and> (\<forall>j < k. \<exists>wj. run_stages (take j ps) (tr0, w)
                               = (Inr (), (tr0 @ map fst (take j ps), wj)))"
  using assms
proof (induction ps arbitrary: tr0 w)
  case Nil
  then show ?case by (auto simp: ok_def)
next
  case (Cons p ps)
  obtain st f where p: "p = (st, f)" by (cases p)
  obtain r1 w1 where f: "f w = (r1, w1)" by (cases "f w")
  show ?case
  proof (cases r1)
    case (Inl e)
    with Cons.prems p f have "tr = tr0 @ [st]" "r = Inl e"
      by (auto simp: seq_def enter_def)
    then have "tr = tr0 @ map fst (take 1 (p # ps))" "r \<noteq> Inr ()"
      using p by auto
    moreover have "\<forall>j < (1::nat). \<exists>wj. run_stages (take j (p # ps)) (tr0, w)
                               = (Inr (), (tr0 @ map fst (take j (p # ps)), wj))"
      by (auto simp: ok_def)
    ultimately show ?thesis
      by (intro exI [of _ 1]) auto
  next
    case (Inr u)
    with Cons.prems p f have rest: "run_stages ps (tr0 @ [st], w1) = (r, (tr, w'))"
      by (auto simp: seq_def enter_def)
    from Cons.IH [OF rest] obtain k where k: "k \<le> length ps"
      and tr: "tr = (tr0 @ [st]) @ map fst (take k ps)"
      and full: "r = Inr () \<longrightarrow> k = length ps"
      and pre: "\<forall>j < k. \<exists>wj. run_stages (take j ps) (tr0 @ [st], w1)
                               = (Inr (), ((tr0 @ [st]) @ map fst (take j ps), wj))"
      by blast
    have "\<exists>wj. run_stages (take j (p # ps)) (tr0, w)
                 = (Inr (), (tr0 @ map fst (take j (p # ps)), wj))" if "j < Suc k" for j
    proof (cases j)
      case 0
      then show ?thesis by (simp add: ok_def)
    next
      case (Suc i)
      with that have "i < k" by simp
      with pre obtain wj where "run_stages (take i ps) (tr0 @ [st], w1)
                               = (Inr (), ((tr0 @ [st]) @ map fst (take i ps), wj))"
        by blast
      with Suc p f Inr show ?thesis
        by (auto simp: seq_def enter_def)
    qed
    with k tr full p show ?thesis
      by (intro exI [of _ "Suc k"]) auto
  qed
qed


lemma run_stages_append:
  "run_stages (xs @ ys) = seq (run_stages xs) (\<lambda>_. run_stages ys)"
proof (induction xs)
  case Nil
  show ?case by (simp add: seq_ok_left)
next
  case (Cons p xs)
  obtain st f where "p = (st, f)" by (cases p)
  with Cons show ?case by (simp add: seq_assoc)
qed

lemma run_stages_done_trace:
  assumes "run_stages ps (tr0, w) = (Inr (), (tr, w'))"
  shows "tr = tr0 @ map fst ps"
  using run_stages_trace [OF assms] by auto

lemma run_stages_fail_at:
  assumes k: "k < length ps"
    and pre: "run_stages (take k ps) (tr0, w) = (Inr (), (tr, wk))"
    and fail: "snd (ps ! k) wk = (Inl e, w2)"
  shows "run_stages ps (tr0, w) = (Inl e, (tr0 @ map fst (take (Suc k) ps), w2))"
proof -
  obtain st f where p: "ps ! k = (st, f)" by (cases "ps ! k")
  have split: "ps = take k ps @ (st, f) # drop (Suc k) ps"
    using k p by (metis id_take_nth_drop)
  have tr: "tr = tr0 @ map fst (take k ps)"
    using run_stages_done_trace [OF pre] .
  have "run_stages ps (tr0, w)
          = seq (run_stages (take k ps)) (\<lambda>_. run_stages ((st, f) # drop (Suc k) ps)) (tr0, w)"
    using split run_stages_append [of "take k ps" "(st, f) # drop (Suc k) ps"] by simp
  also have "\<dots> = run_stages ((st, f) # drop (Suc k) ps) (tr, wk)"
    using pre by (simp add: seq_def)
  also have "\<dots> = (Inl e, (tr @ [st], w2))"
    using fail p by (simp add: seq_def enter_def)
  finally show ?thesis
    using tr p k by (simp add: take_Suc_conv_app_nth)
qed

lemma apply_all_inner_cases:
  "apply_all_inner c (tr0, w) =
     (case set_amis w of
        (Inl e, w0) \<Rightarrow> (Inl e, (tr0, w0))
      | (Inr _, w0) \<Rightarrow>
          (case run_stages (pipeline c) (tr0, w0) of
             (Inl e, s) \<Rightarrow> (Inl e, s)
           | (Inr _, (tr, w1)) \<Rightarrow>
               (Inr (), (tr, w1\<lparr>logs := logs w1
                    @ [(''info'', ''done! don't you look awesome. : )'')]\<rparr>))))"
  by (simp add: apply_all_inner_run_stages seq_def untraced_def emit_def
      split: prod.splits sum.splits)

lemma apply_all_cases:
  "apply_all c s =
     (case apply_all_inner c s of
        (Inl e, (tr, w)) \<Rightarrow> (Inl e, (tr, w\<lparr>logs := logs w @ failure_report e\<rparr>))
      | (Inr u, s') \<Rightarrow> (Inr u, s'))"
  by (simp add: apply_all_def seq_def emit_def failure_report_def
      split: prod.splits sum.splits)

text \<open>
  Claim C8. In every run of the build the stages are entered in the order route tables,
  subnets, associations, endpoints, key pairs, security groups, instance roles,
  security-group rules, wait-for-running, instance locking: the stages entered are an
  initial segment of that list, all of it when the build returns normally, and a stage
  is entered only after every stage before it has returned normally. So the rules
  stage runs only after the security-groups stage has completed, and the associations
  only after the subnets stage has.
\<close>

theorem stages_in_order:
  assumes "apply_all c ([], w) = (r, (tr, w'))"
  shows "\<exists>k \<le> length stage_order.
           tr = take k stage_order
           \<and> (r = Inr () \<longrightarrow> tr = stage_order)
           \<and> (\<forall>j < k. \<exists>w0 wj. set_amis w = (Inr (), w0)
                  \<and> run_stages (take j (pipeline c)) ([], w0)
                      = (Inr (), (take j stage_order, wj)))"
proof (cases "set_amis w")
  case (Pair r0 w0)
  show ?thesis
  proof (cases r0)
    case (Inl e)
    with Pair assms have "tr = []" "r = Inl e"
      by (auto simp: apply_all_cases apply_all_inner_cases)
    then show ?thesis by (intro exI [of _ 0]) simp
  next
    case (Inr u)
    obtain r1 tr1 w1 where run: "run_stages (pipeline c) ([], w0) = (r1, (tr1, w1))"
      by (metis prod.exhaust)
    from Pair Inr run assms have tr: "tr = tr1" and r: "r = Inr () \<longrightarrow> r1 = Inr ()"
      by (auto simp: apply_all_cases apply_all_inner_cases split: sum.splits)
    from run_stages_trace [OF run] obtain k where k: "k \<le> length (pipeline c)"
      and tr1: "tr1 = map fst (take k (pipeline c))"
      and full: "r1 = Inr () \<longrightarrow> k = length (pipeline c)"
      and pre: "\<forall>j < k. \<exists>wj. run_stages (take j (pipeline c)) ([], w0)
                               = (Inr (), ([] @ map fst (take j (pipeline c)), wj))"
      by auto
    have take_order: "map fst (take j (pipeline c)) = take j stage_order" for j
      using map_fst_pipeline [of c] by (metis take_map)
    have len: "length (pipeline c) = length stage_order"
      using map_fst_pipeline [of c] by (metis length_map)
    have "k \<le> length stage_order" using k len by simp
    moreover have "tr = take k stage_order" using tr tr1 take_order by simp
    moreover have "r = Inr () \<longrightarrow> tr = stage_order"
      using r full tr tr1 take_order len by auto
    moreover have "\<forall>j < k. \<exists>w0 wj. set_amis w = (Inr (), w0)
                  \<and> run_stages (take j (pipeline c)) ([], w0)
                      = (Inr (), (take j stage_order, wj))"
      using pre Pair Inr take_order by auto
    ultimately show ?thesis by blast
  qed
qed

text \<open>
  Claim C7, amended. When one of the nine stages from route tables to wait-for-running
  raises, no later stage is entered, the exception is re-raised by \<^verbatim>\<open>apply_all\<close>, and
  the state is the one the failing stage left plus the four log lines of the report
  (nothing is torn down). When the locking call raises, the exception is caught inside
  \<^verbatim>\<open>_apply_all\<close>: a warning is logged, the build goes on to its last log line and
  returns normally.
\<close>

theorem stage_failure_reraised:
  "(set_amis w = (Inr (), w0) \<and> k < 9
      \<and> run_stages (take k (pipeline c)) ([], w0) = (Inr (), (tr, wk))
      \<and> snd (pipeline c ! k) wk = (Inl e, w2)
    \<longrightarrow> apply_all c ([], w)
          = (Inl e, (take (Suc k) stage_order, w2\<lparr>logs := logs w2 @ failure_report e\<rparr>)))
   \<and> (set_amis w = (Inr (), w0)
      \<and> run_stages (take 9 (pipeline c)) ([], w0) = (Inr (), (tr, wk))
      \<and> lock_instances c
           (wk\<lparr>logs := logs wk @ [(''info'', ''locking instances to prevent termination'')]\<rparr>)
          = (Inl e, w2)
    \<longrightarrow> apply_all c ([], w)
          = (Inr (), (stage_order,
               w2\<lparr>logs := logs w2
                    @ [(''warning'', ''could not lock instances, continuing...''),
                       (''info'', ''done! don't you look awesome. : )'')]\<rparr>)))"
proof (intro conjI impI)
  have take_order: "map fst (take j (pipeline c)) = take j stage_order" for j
    using map_fst_pipeline [of c] by (metis take_map)
  have len: "length (pipeline c) = 10" by (simp add: pipeline_def)
  {
    assume a: "set_amis w = (Inr (), w0) \<and> k < 9
      \<and> run_stages (take k (pipeline c)) ([], w0) = (Inr (), (tr, wk))
      \<and> snd (pipeline c ! k) wk = (Inl e, w2)"
    then have "k < length (pipeline c)" using len by simp
    from run_stages_fail_at [OF this, of "[]" w0 tr wk e w2] a
    have "run_stages (pipeline c) ([], w0) = (Inl e, (take (Suc k) stage_order, w2))"
      using take_order by simp
    with a show "apply_all c ([], w)
          = (Inl e, (take (Suc k) stage_order, w2\<lparr>logs := logs w2 @ failure_report e\<rparr>))"
      by (simp add: apply_all_cases apply_all_inner_cases)
  }
  {
    assume a: "set_amis w = (Inr (), w0)
      \<and> run_stages (take 9 (pipeline c)) ([], w0) = (Inr (), (tr, wk))
      \<and> lock_instances c
           (wk\<lparr>logs := logs wk @ [(''info'', ''locking instances to prevent termination'')]\<rparr>)
          = (Inl e, w2)"
    have split: "pipeline c = take 9 (pipeline c) @ [(LockInstances, lock_stage c)]"
      by (simp add: pipeline_def)
    have tr: "tr = take 9 stage_order"
      using a run_stages_done_trace [of "take 9 (pipeline c)" "[]" w0 tr wk] take_order by simp
    have lock: "lock_stage c wk
                  = (Inr (), w2\<lparr>logs := logs w2
                       @ [(''warning'', ''could not lock instances, continuing...'')]\<rparr>)"
      using a by (simp add: lock_stage_def seq_def emit_def)
    have "run_stages (pipeline c) ([], w0)
            = seq (run_stages (take 9 (pipeline c)))
                (\<lambda>_. run_stages [(LockInstances, lock_stage c)]) ([], w0)"
      using split run_stages_append [of "take 9 (pipeline c)" "[(LockInstances, lock_stage c)]"]
      by simp
    also have "\<dots> = run_stages [(LockInstances, lock_stage c)] (tr, wk)"
      using a by (simp add: seq_def)
    also have "\<dots> = (Inr (), (tr @ [LockInstances],
          w2\<lparr>logs := logs w2 @ [(''warning'', ''could not lock instances, continuing...'')]\<rparr>))"
      using lock by (simp add: seq_def enter_def ok_def)
    finally have "run_stages (pipeline c) ([], w0) = (Inr (), (stage_order,
          w2\<lparr>logs := logs w2 @ [(''warning'', ''could not lock instances, continuing...'')]\<rparr>))"
      using tr by (simp add: stage_order_def)
    with a show "apply_all c ([], w)
          = (Inr (), (stage_order,
               w2\<lparr>logs := logs w2
                    @ [(''warning'', ''could not lock instances, continuing...''),
                       (''info'', ''done! don't you look awesome. : )'')]\<rparr>))"
      by (simp add: apply_all_cases apply_all_inner_cases)
  }
qed


text \<open>Evaluation of concrete runs.\<close>

lemmas run_defs = seq_def ok_def raise_def lift_def reads_def emit_def

lemmas world_defs = base_world_def empty_world_def no_config_def running_def
  subnet_a_def subnet_b_def subnet_c_def role_in_def fresh_instance_def build_of_def

lemmas stage_defs = pipeline_def key_pairs_stage_def key_pairs_def instance_roles_stage_def
  instance_roles_def wait_stage_def lock_stage_def enter_def untraced_def set_amis_def
  get_key_pair_def create_key_pair_def

lemmas collab_defs = quiet_def lock_denied_def subnets_denied_def

theorem stages_in_order_witness:
  "fst (apply_all quiet ([], build_of base_world [])) = Inr ()
   \<and> fst (snd (apply_all quiet ([], build_of base_world []))) = stage_order
   \<and> fst (snd (apply_all subnets_denied ([], build_of base_world []))) = take 2 stage_order"
proof -
  obtain r tr w' where run: "apply_all quiet ([], build_of base_world []) = (r, (tr, w'))"
    by (metis prod.exhaust)
  have "fst (apply_all quiet ([], build_of base_world [])) = Inr ()"
    by (simp add: apply_all_cases apply_all_inner_cases stage_defs collab_defs run_defs
        world_defs Let_def)
  with run have r: "r = Inr ()" by simp
  from stages_in_order [OF run] r have "tr = stage_order" by blast
  with run r have first: "fst (apply_all quiet ([], build_of base_world [])) = Inr ()
   \<and> fst (snd (apply_all quiet ([], build_of base_world []))) = stage_order"
    by simp
  have "fst (snd (apply_all subnets_denied ([], build_of base_world []))) = take 2 stage_order"
    by (simp add: apply_all_cases apply_all_inner_cases stage_defs collab_defs run_defs
        world_defs Let_def stage_order_def)
  with first show ?thesis by simp
qed

text \<open>
  Claim C7 as stated fails for the last stage: the locking call raises, and the build
  neither reports a failure nor re-raises.
\<close>

theorem lock_failure_swallowed:
  "lock_instances lock_denied = raise (ClientError ''UnauthorizedOperation'')
   \<and> fst (apply_all lock_denied ([], build_of base_world [])) = Inr ()
   \<and> fst (snd (apply_all lock_denied ([], build_of base_world []))) = stage_order
   \<and> logs (snd (snd (apply_all lock_denied ([], build_of base_world []))))
       = [(''info'', ''locking instances to prevent termination''),
          (''warning'', ''could not lock instances, continuing...''),
          (''info'', ''done! don't you look awesome. : )'')]"
  by (simp add: apply_all_cases apply_all_inner_cases stage_defs collab_defs run_defs
      world_defs Let_def stage_order_def)

theorem stage_failure_reraised_witness:
  "fst (subnets subnets_denied (build_of base_world [])) = Inl (ClientError ''UnauthorizedOperation'')
   \<and> apply_all subnets_denied ([], build_of base_world [])
       = (Inl (ClientError ''UnauthorizedOperation''),
          ([RouteTables, Subnets],
           (build_of base_world [])
             \<lparr>logs := failure_report (ClientError ''UnauthorizedOperation'')\<rparr>))
   \<and> fst (apply_all lock_denied ([], build_of base_world [])) = Inr ()"
proof -
  let ?W = "build_of base_world []"
  let ?e = "ClientError ''UnauthorizedOperation''"
  have amis: "set_amis ?W = (Inr (), ?W)"
    by (simp add: set_amis_def world_defs)
  have pre: "run_stages (take 1 (pipeline subnets_denied)) ([], ?W) = (Inr (), ([RouteTables], ?W))"
    by (simp add: pipeline_def collab_defs run_defs enter_def)
  have fail: "snd (pipeline subnets_denied ! 1) ?W = (Inl ?e, ?W)"
    by (simp add: pipeline_def collab_defs run_defs)
  have one: "(1::nat) < 9" by simp
  from stage_failure_reraised [of ?W ?W 1 subnets_denied "[RouteTables]" ?W ?e ?W]
    amis pre fail one
  have first: "apply_all subnets_denied ([], ?W)
       = (Inl ?e, ([RouteTables, Subnets], ?W\<lparr>logs := logs ?W @ failure_report ?e\<rparr>))"
    by (simp add: stage_order_def)
  have logs0: "logs ?W = []" by (simp add: world_defs)
  have pre9: "run_stages (take 9 (pipeline lock_denied)) ([], ?W)
                = (Inr (), (take 9 stage_order, ?W))"
    by (simp add: stage_defs collab_defs run_defs Let_def stage_order_def world_defs)
  let ?L = "?W\<lparr>logs := logs ?W @ [(''info'', ''locking instances to prevent termination'')]\<rparr>"
  have lock: "lock_instances lock_denied ?L = (Inl ?e, ?L)"
    by (simp add: collab_defs run_defs)
  from stage_failure_reraised [of ?W ?W 1 lock_denied "take 9 stage_order" ?W ?e ?L]
    amis pre9 lock
  have second: "fst (apply_all lock_denied ([], ?W)) = Inr ()"
    by simp
  have "fst (subnets subnets_denied ?W) = Inl ?e"
    by (simp add: collab_defs run_defs)
  with first second logs0 show ?thesis by simp
qed

section \<open>Reconciling a role: early exits and counts\<close>

lemmas role_defs = instance_role_def lookup_ami_def get_security_group_def
  get_subnet_def sort_subnets_def subnet_instances_def get_role_def tag_of_def
  launch_in_subnet_def subnet_count_def create_instances_def get_ids_def
  int_plus_str_def str_plus_int_def tag_instances_def tag_instance_def update_tags_def
  allocate_eip_def

lemma lookup_ami_frame:
  "amis w' = amis w \<Longrightarrow> region_name w' = region_name w \<Longrightarrow> lookup_ami w' rd = lookup_ami w rd"
  by (simp add: lookup_ami_def cong: option.case_cong)

lemma seq_emit: "seq (emit m l) f w = f () (w\<lparr>logs := logs w @ [(l, m)]\<rparr>)"
  by (simp add: seq_def emit_def)

lemma seq_reads: "seq (reads g) f w = f (g w) w"
  by (simp add: seq_def reads_def)

lemma seq_lift:
  "seq (\<lambda>w. lift (g w) w) f w = (case g w of Inl e \<Rightarrow> (Inl e, w) | Inr x \<Rightarrow> f x w)"
  by (simp add: seq_def lift_def ok_def raise_def split: sum.splits)

lemma logs_frame:
  "lookup_ami (w\<lparr>logs := l\<rparr>) = lookup_ami w"
  "get_key_pair (w\<lparr>logs := l\<rparr>) = get_key_pair w"
  "get_security_group (w\<lparr>logs := l\<rparr>) = get_security_group w"
  "get_subnet (w\<lparr>logs := l\<rparr>) = get_subnet w"
  "sort_subnets (w\<lparr>logs := l\<rparr>) = sort_subnets w"
  "get_role (w\<lparr>logs := l\<rparr>) = get_role w"
  by (intro ext, simp add: lookup_ami_def get_key_pair_def get_security_group_def
      get_subnet_def sort_subnets_def subnet_instances_def get_role_def tag_of_def
      cong: option.case_cong)+

lemma instance_role_scale_down:
  assumes ami: "lookup_ami w role_data = Inr ami"
    and names: "rd_subnets role_data = Some names" "names \<noteq> []"
    and found: "those (map (get_subnet w) names) = Some found"
    and ge: "desired_count \<le> int (length (get_role w role_name (instances w)))"
  shows "instance_role role_name role_data desired_count w
           = (Inl (TypeError ''unsupported operand type(s) for +: int and str''),
              w\<lparr>logs := logs w @ [(''info'', ''creating role: '' @ role_name)]\<rparr>)"
proof -
  have sorted: "sort_subnets w (map (get_subnet w) names)
             = Inr (sort_key (\<lambda>sn. length (subnet_instances w sn)) found)"
    using found by (simp add: sort_subnets_def)
  show ?thesis
    unfolding instance_role_def
    using names ge
    by (simp add: seq_emit seq_reads seq_lift logs_frame ami sorted int_plus_str_def)
qed

text \<open>
  Claim C2 is not met by the code. A role with three instances and a desired count of
  two: the branch for \<^verbatim>\<open>existing_count >= desired_count\<close> raises \<^verbatim>\<open>TypeError\<close> while
  it builds its debug message, before \<^verbatim>\<open>return None\<close>; the build stops in the roles
  stage with that exception.
\<close>

theorem scale_down_raises:
  "instance_role ''db'' (role_in [''private-1''] 2) 2 db_world
     = (Inl (TypeError ''unsupported operand type(s) for +: int and str''),
        db_world\<lparr>logs := [(''info'', ''creating role: db'')]\<rparr>)
   \<and> fst (apply_all quiet ([], build_of db_world [(''db'', role_in [''private-1''] 2)]))
     = Inl (TypeError ''unsupported operand type(s) for +: int and str'')
   \<and> fst (snd (apply_all quiet ([], build_of db_world [(''db'', role_in [''private-1''] 2)])))
     = take 7 stage_order"
proof -
  have "instance_role ''db'' (role_in [''private-1''] 2) 2 db_world
     = (Inl (TypeError ''unsupported operand type(s) for +: int and str''),
        db_world\<lparr>logs := logs db_world @ [(''info'', ''creating role: '' @ ''db'')]\<rparr>)"
    by (rule instance_role_scale_down [where ami = "''ami-1234''" and names = "[''private-1'']"
          and found = "[subnet_a]"])
      (simp_all add: role_defs world_defs db_world_def)
  moreover have "fst (apply_all quiet ([], build_of db_world [(''db'', role_in [''private-1''] 2)]))
     = Inl (TypeError ''unsupported operand type(s) for +: int and str'')
   \<and> fst (snd (apply_all quiet ([], build_of db_world [(''db'', role_in [''private-1''] 2)])))
     = take 7 stage_order"
    by code_simp
  ultimately show ?thesis by (simp add: db_world_def world_defs)
qed

text \<open>
  Claim C3 is not met by the code. A role with desired count three and two instances,
  both in the second of its two subnets: the count for the second subnet is \<open>-2\<close>,
  the test \<^verbatim>\<open>count == 0\<close> does not skip it, and a launch call with
  \<^verbatim>\<open>MinCount = MaxCount = -2\<close> is issued.
\<close>

theorem negative_count_launched:
  "map (\<lambda>l. (l_subnet l, l_count l))
     (launches (snd (instance_role ''web'' (role_in [''private-1'', ''private-2''] 3) 3
                       uneven_world)))
   = [(''subnet-a'', 1), (''subnet-b'', - 2)]"
  by code_simp

text \<open>
  Claim C4 is not met by the code. The first role names no subnets, the second is
  launched (one instance), and then the tagging loop raises on the \<^verbatim>\<open>None\<close> that
  \<^verbatim>\<open>instance_role\<close> returned for the first role: the new instance of the second role
  stays untagged and the build stops in the roles stage.
\<close>

theorem no_subnets_breaks_tagging:
  "fst (instance_roles no_subnets_roles base_world)
     = Inl (TypeError ''NoneType object is not iterable'')
   \<and> map (\<lambda>l. (l_subnet l, l_count l)) (launches (snd (instance_roles no_subnets_roles base_world)))
     = [(''subnet-a'', 1)]
   \<and> map inst_id (instances (snd (instance_roles no_subnets_roles base_world))) = [''i-0a0'']
   \<and> tags (snd (instance_roles no_subnets_roles base_world)) (InstanceId ''i-0a0'') = []
   \<and> fst (apply_all quiet ([], build_of base_world no_subnets_roles))
     = Inl (TypeError ''NoneType object is not iterable'')
   \<and> fst (snd (apply_all quiet ([], build_of base_world no_subnets_roles))) = take 7 stage_order"
  by code_simp

text \<open>
  Claim C6 as stated fails: the image of the first role has no entry for the region,
  the lookup raises \<^verbatim>\<open>KeyError\<close>, nothing is launched, the second role is never
  reached and the build stops in the roles stage.
\<close>

theorem missing_region_aborts:
  "fst (instance_roles centos_roles base_world) = Inl (KeyError ''us-west-2'')
   \<and> launches (snd (instance_roles centos_roles base_world)) = []
   \<and> logs (snd (instance_roles centos_roles base_world)) = [(''info'', ''creating role: web'')]
   \<and> fst (apply_all quiet ([], build_of base_world centos_roles)) = Inl (KeyError ''us-west-2'')
   \<and> fst (snd (apply_all quiet ([], build_of base_world centos_roles))) = take 7 stage_order"
  by code_simp

section \<open>Reconciling roles: a missing image aborts\<close>

lemma same_setup_refl: "same_setup w w"
  by (simp add: same_setup_def)

lemma same_setup_trans: "same_setup w w' \<Longrightarrow> same_setup w' w'' \<Longrightarrow> same_setup w w''"
  by (simp add: same_setup_def)

lemma keeps_setupD: "keeps_setup m \<Longrightarrow> m w = (r, w') \<Longrightarrow> same_setup w w'"
  by (simp add: keeps_setup_def)

lemma keeps_ok: "keeps_setup (ok x)"
  by (simp add: keeps_setup_def ok_def same_setup_def)

lemma keeps_raise: "keeps_setup (raise e)"
  by (simp add: keeps_setup_def raise_def same_setup_def)

lemma keeps_lift: "keeps_setup (lift r)"
  by (cases r) (simp_all add: lift_def keeps_ok keeps_raise)

lemma keeps_reads: "keeps_setup (reads f)"
  by (simp add: keeps_setup_def reads_def same_setup_def)

lemma keeps_emit: "keeps_setup (emit m l)"
  by (auto simp: keeps_setup_def emit_def same_setup_def)

lemma keeps_lift_read: "keeps_setup (\<lambda>w. lift (g w) w)"
  using keeps_lift by (auto simp: keeps_setup_def)

lemma keeps_seq:
  assumes "keeps_setup m" and "\<And>x. keeps_setup (f x)"
  shows "keeps_setup (seq m f)"
  unfolding keeps_setup_def
proof (intro allI impI)
  fix w r w'
  assume run: "seq m f w = (r, w')"
  obtain r1 w1 where m: "m w = (r1, w1)" by (metis prod.exhaust)
  with assms(1) have s1: "same_setup w w1" by (rule keeps_setupD)
  show "same_setup w w'"
  proof (cases r1)
    case (Inl e)
    with run m have "w' = w1" by (simp add: seq_def)
    with s1 show ?thesis by simp
  next
    case (Inr x)
    with run m have "f x w1 = (r, w')" by (simp add: seq_def)
    with assms(2) have "same_setup w1 w'" by (rule keeps_setupD)
    with s1 show ?thesis by (rule same_setup_trans)
  qed
qed

lemma keeps_create_instances: "keeps_setup (create_instances req)"
  by (auto simp: keeps_setup_def create_instances_def same_setup_def Let_def
      split: option.splits)

lemmas keeps = keeps_ok keeps_raise keeps_lift keeps_reads keeps_emit keeps_lift_read
  keeps_seq keeps_create_instances

lemma launch_in_subnet_setup:
  assumes run: "launch_in_subnet role_name role_data ami key_pair sgs per rem sn w = (r, w')"
  shows "same_setup w w'"
proof -
  let ?w1 = "w\<lparr>uuid_count := Suc (uuid_count w)\<rparr>"
  have 1: "same_setup w ?w1" by (simp add: same_setup_def)
  obtain rem' c where sc:
    "subnet_count per rem (int (length (get_role ?w1 role_name (subnet_instances ?w1 sn))))
       = (rem', c)"
    by (metis prod.exhaust)
  have "same_setup ?w1 w'"
  proof (cases "c = 0")
    case True
    with run sc have "w' = ?w1"
      by (simp add: launch_in_subnet_def Let_def ok_def)
    then show ?thesis by (simp add: same_setup_refl)
  next
    case False
    with run sc obtain m :: "(int \<times> ec2_instance list, world) run"
      where m: "m ?w1 = (r, w')" and k: "keeps_setup m"
      by (simp add: launch_in_subnet_def Let_def) (blast intro: keeps)
    then show ?thesis by (rule keeps_setupD [rotated])
  qed
  with 1 show ?thesis by (rule same_setup_trans)
qed

lemma keeps_launch_loop:
  "keeps_setup (launch_loop role_name role_data ami key_pair sgs per sns rem acc)"
proof (induction sns arbitrary: rem acc)
  case Nil
  show ?case using keeps_ok [of acc] by (simp add: keeps_setup_def)
next
  case (Cons sn sns)
  show ?case
    unfolding keeps_setup_def
  proof (intro allI impI)
    fix w r w'
    assume run: "launch_loop role_name role_data ami key_pair sgs per (sn # sns) rem acc w
                   = (r, w')"
    obtain r1 w1 where step:
      "launch_in_subnet role_name role_data ami key_pair sgs per rem sn w = (r1, w1)"
      by (metis prod.exhaust)
    have s1: "same_setup w w1" using launch_in_subnet_setup [OF step] .
    show "same_setup w w'"
    proof (cases r1)
      case (Inl e)
      with run step have "w' = w1" by simp
      with s1 show ?thesis by simp
    next
      case (Inr p)
      obtain rem' new where p: "p = (rem', new)" by (cases p)
      with run step Inr
      have "launch_loop role_name role_data ami key_pair sgs per sns rem' (acc @ new) w1
              = (r, w')"
        by simp
      with Cons.IH have "same_setup w1 w'" by (rule keeps_setupD)
      with s1 show ?thesis by (rule same_setup_trans)
    qed
  qed
qed

lemma keeps_instance_role: "keeps_setup (instance_role role_name role_data desired_count)"
  unfolding instance_role_def Let_def
  by (intro keeps keeps_launch_loop allI) (auto intro!: keeps keeps_launch_loop)

lemma instance_role_setup:
  "instance_role role_name role_data desired_count w = (r, w') \<Longrightarrow> same_setup w w'"
  using keeps_instance_role by (rule keeps_setupD)

lemma roles_loop_setup:
  "roles_loop cfg roles with_eips w = (r, w') \<Longrightarrow> same_setup w w'"
proof (induction cfg arbitrary: roles with_eips w)
  case Nil
  then show ?case by (simp add: ok_def same_setup_refl)
next
  case (Cons p cfg)
  obtain role_name role_data where p: "p = (role_name, role_data)" by (cases p)
  obtain r1 w1 where step:
    "instance_role role_name role_data (case rd_count role_data of None \<Rightarrow> 0 | Some c \<Rightarrow> c) w
       = (r1, w1)"
    by (metis prod.exhaust)
  have s1: "same_setup w w1" using instance_role_setup [OF step] .
  show ?case
  proof (cases r1)
    case (Inl e)
    with Cons.prems step p have "w' = w1" by (simp add: Let_def)
    with s1 show ?thesis by simp
  next
    case (Inr role_instances)
    with Cons.prems step p obtain roles' with_eips' where
      "roles_loop cfg roles' with_eips' w1 = (r, w')"
      by (auto simp: Let_def)
    from Cons.IH [OF this] s1 show ?thesis by (rule same_setup_trans [rotated])
  qed
qed

lemma roles_loop_append:
  "roles_loop (xs @ ys) roles with_eips w =
     (case roles_loop xs roles with_eips w of
        (Inl e, w') \<Rightarrow> (Inl e, w')
      | (Inr (roles', with_eips'), w') \<Rightarrow> roles_loop ys roles' with_eips' w')"
proof (induction xs arbitrary: roles with_eips w)
  case Nil
  show ?case by (simp add: ok_def)
next
  case (Cons p xs)
  obtain role_name role_data where p: "p = (role_name, role_data)" by (cases p)
  show ?case
    using Cons.IH by (simp add: p Let_def split: prod.splits sum.splits)
qed

lemma instance_role_lookup_fails:
  assumes "lookup_ami w role_data = Inl e"
  shows "instance_role role_name role_data desired_count w
           = (Inl e, w\<lparr>logs := logs w @ [(''info'', ''creating role: '' @ role_name)]\<rparr>)"
  using assms by (simp add: instance_role_def seq_emit seq_lift logs_frame)

lemma instance_roles_lookup_fails:
  assumes before: "roles_loop before [] [] w = (Inr (roles, with_eips), w1)"
    and fails: "lookup_ami w role_data = Inl e"
  shows "instance_roles (before @ (role_name, role_data) # after) w
           = (Inl e, w1\<lparr>logs := logs w1 @ [(''info'', ''creating role: '' @ role_name)]\<rparr>)"
proof -
  have "same_setup w w1" using roles_loop_setup [OF before] .
  then have "lookup_ami w1 role_data = Inl e"
    using fails lookup_ami_frame [of w1 w role_data] by (simp add: same_setup_def)
  then have "instance_role role_name role_data d w1
           = (Inl e, w1\<lparr>logs := logs w1 @ [(''info'', ''creating role: '' @ role_name)]\<rparr>)" for d
    by (rule instance_role_lookup_fails)
  then have "roles_loop (before @ (role_name, role_data) # after) [] [] w
           = (Inl e, w1\<lparr>logs := logs w1 @ [(''info'', ''creating role: '' @ role_name)]\<rparr>)"
    using before by (simp add: roles_loop_append Let_def)
  then show ?thesis
    by (simp add: instance_roles_def seq_def)
qed

text \<open>
  Claim C6, amended. When the image of a role has no entry for the region, the lookup
  raises \<^verbatim>\<open>KeyError\<close> as soon as the role is reached, after the roles before it have
  been reconciled: \<^verbatim>\<open>instance_roles\<close> ends there with that exception, having launched
  nothing for the role, reconciled no later role and tagged no role at all; the build
  stops in the roles stage, and \<^verbatim>\<open>apply_all\<close> reports the failure and re-raises it.
\<close>

theorem missing_region_stops_build:
  assumes "rd_ami role_data = Some ami_name"
    and "map_of (amis w) ami_name = Some by_region"
    and "map_of by_region (region_name w) = None"
    and "roles_loop before [] [] w = (Inr (roles, with_eips), w1)"
  shows "instance_roles (before @ (role_name, role_data) # after) w
           = (Inl (KeyError (region_name w)),
              w1\<lparr>logs := logs w1 @ [(''info'', ''creating role: '' @ role_name)]\<rparr>)
         \<and> (set_amis w_start = (Inr (), w0)
              \<and> run_stages (take 6 (pipeline c)) ([], w0) = (Inr (), (tr, w))
              \<and> cfg_instance_roles (config w) = Some (before @ (role_name, role_data) # after)
            \<longrightarrow> apply_all c ([], w_start)
                  = (Inl (KeyError (region_name w)),
                     (take 7 stage_order,
                      w1\<lparr>logs := logs w1 @ (''info'', ''creating role: '' @ role_name)
                                       # failure_report (KeyError (region_name w))\<rparr>)))"
proof -
  let ?e = "KeyError (region_name w)"
  let ?w2 = "w1\<lparr>logs := logs w1 @ [(''info'', ''creating role: '' @ role_name)]\<rparr>"
  have "lookup_ami w role_data = Inl ?e"
    using assms(1-3) by (simp add: lookup_ami_def)
  with assms(4)
  have roles: "instance_roles (before @ (role_name, role_data) # after) w = (Inl ?e, ?w2)"
    by (rule instance_roles_lookup_fails)
  have "apply_all c ([], w_start)
          = (Inl ?e, (take 7 stage_order, ?w2\<lparr>logs := logs ?w2 @ failure_report ?e\<rparr>))"
    if a: "set_amis w_start = (Inr (), w0)
           \<and> run_stages (take 6 (pipeline c)) ([], w0) = (Inr (), (tr, w))
           \<and> cfg_instance_roles (config w) = Some (before @ (role_name, role_data) # after)"
  proof -
    have six: "6 < length (pipeline c)" by (simp add: pipeline_def)
    have stage: "snd (pipeline c ! 6) w = (Inl ?e, ?w2)"
      using a roles by (simp add: pipeline_def instance_roles_stage_def)
    have pre: "run_stages (take 6 (pipeline c)) ([], w0) = (Inr (), (tr, w))"
      using a by simp
    have "run_stages (pipeline c) ([], w0)
            = (Inl ?e, ([] @ map fst (take (Suc 6) (pipeline c)), ?w2))"
      using run_stages_fail_at [OF six pre stage] .
    then have "run_stages (pipeline c) ([], w0) = (Inl ?e, (take 7 stage_order, ?w2))"
      by (simp add: pipeline_def stage_order_def)
    with a show ?thesis
      by (simp add: apply_all_cases apply_all_inner_cases)
  qed
  with roles show ?thesis by simp
qed

theorem missing_region_stops_build_witness:
  "set_amis (build_of base_world centos_second) = (Inr (), build_of base_world centos_second)
   \<and> (case fst (roles_loop [(''db'', role_in [''private-1''] 1)] [] []
                   (build_of base_world centos_second)) of
        Inl _ \<Rightarrow> False | Inr _ \<Rightarrow> True)
   \<and> fst (instance_roles centos_second (build_of base_world centos_second))
       = Inl (KeyError ''us-west-2'')
   \<and> fst (apply_all quiet ([], build_of base_world centos_second)) = Inl (KeyError ''us-west-2'')
   \<and> fst (snd (apply_all quiet ([], build_of base_world centos_second))) = take 7 stage_order"
proof -
  let ?W = "build_of base_world centos_second"
  let ?rd = "(role_in [''private-1''] 1)\<lparr>rd_ami := Some ''centos''\<rparr>"
  have amis: "set_amis ?W = (Inr (), ?W)"
    by (simp add: set_amis_def world_defs)
  have loop_ok: "case fst (roles_loop [(''db'', role_in [''private-1''] 1)] [] [] ?W) of
        Inl _ \<Rightarrow> False | Inr _ \<Rightarrow> True"
    by code_simp
  then obtain roles with_eips w1
    where before: "roles_loop [(''db'', role_in [''private-1''] 1)] [] [] ?W
                     = (Inr (roles, with_eips), w1)"
    by (cases "roles_loop [(''db'', role_in [''private-1''] 1)] [] [] ?W")
       (auto split: sum.splits)
  have a1: "rd_ami ?rd = Some ''centos''" by (simp add: role_in_def)
  have a2: "map_of (amis ?W) ''centos'' = Some [(''us-east-1'', ''ami-9abc'')]"
    by (simp add: world_defs)
  have a3: "map_of [(''us-east-1'', ''ami-9abc'')] (region_name ?W) = None"
    by (simp add: world_defs)
  have region: "region_name ?W = ''us-west-2''" by (simp add: world_defs)
  have pre: "run_stages (take 6 (pipeline quiet)) ([], ?W) = (Inr (), (take 6 stage_order, ?W))"
    by (simp add: stage_defs collab_defs run_defs Let_def stage_order_def world_defs)
  have cfg: "cfg_instance_roles (config ?W)
               = Some ([(''db'', role_in [''private-1''] 1)] @ (''web'', ?rd)
                         # [(''cache'', role_in [''private-2''] 1)])"
    by (simp add: build_of_def centos_second_def)
  from missing_region_stops_build [OF a1 a2 a3 before, of "''web''"
      "[(''cache'', role_in [''private-2''] 1)]" ?W ?W quiet "take 6 stage_order"]
    amis pre cfg region
  have "fst (instance_roles centos_second ?W) = Inl (KeyError ''us-west-2'')
   \<and> fst (apply_all quiet ([], ?W)) = Inl (KeyError ''us-west-2'')
   \<and> fst (snd (apply_all quiet ([], ?W))) = take 7 stage_order"
    by (simp add: centos_second_def)
  with amis loop_ok show ?thesis by simp
qed

section \<open>The address allocator: disjoint blocks in request order\<close>

lemma log2_power: "log2 (2 ^ k) = k"
proof (induction k)
  case 0
  show ?case by simp
next
  case (Suc k)
  have "(2::nat) \<le> 2 * 2 ^ k" by simp
  then have "log2 (2 * 2 ^ k) = Suc (log2 ((2 * 2 ^ k) div 2))"
    by (subst log2.simps) simp
  with Suc show ?case by simp
qed

declare log2.simps [simp del]

lemma is_pow2_iff: "is_pow2 n \<longleftrightarrow> (\<exists>k. n = 2 ^ k)"
  by (auto simp: is_pow2_def log2_power)

lemma is_pow2_pos: "is_pow2 n \<Longrightarrow> 0 < n"
  by (auto simp: is_pow2_iff)

lemma is_pow2_dvd:
  assumes "is_pow2 a" and "is_pow2 b" and "a \<le> b"
  shows "a dvd b"
proof -
  from assms obtain k m where a: "a = 2 ^ k" and b: "b = 2 ^ m"
    by (auto simp: is_pow2_iff)
  with assms(3) have "k \<le> m" by simp
  then show ?thesis using a b by (simp add: le_imp_power_dvd)
qed

lemma align_up_aligned:
  assumes "0 < c" and "c dvd cursor"
  shows "align_up cursor c = cursor"
proof -
  from assms(2) obtain q where q: "cursor = c * q" ..
  have "c * q + c - 1 = q * c + (c - 1)"
    using assms(1) by (simp add: algebra_simps)
  moreover have "(q * c + (c - 1)) div c = q + (c - 1) div c"
    using assms(1) by (intro div_mult_self3) simp
  moreover have "(c - 1) div c = 0"
    using assms(1) by (intro div_less) simp
  ultimately have "(c * q + c - 1) div c = q" by simp
  then show ?thesis by (simp add: align_up_def q)
qed

lemma capacity_block_of:
  assumes "is_pow2 c" and "c \<le> 2 ^ addr_bits"
  shows "capacity (block_of start c) = c"
proof -
  from assms(1) obtain k where c: "c = 2 ^ k" by (auto simp: is_pow2_iff)
  with assms(2) have "k \<le> addr_bits" by simp
  then show ?thesis by (simp add: capacity_def block_of_def c log2_power)
qed

lemma addresses_block_of:
  assumes "is_pow2 c" and "c \<le> 2 ^ addr_bits"
  shows "addresses (block_of start c) = {start ..< start + c}"
  using capacity_block_of [OF assms] by (simp add: addresses_def block_of_def)

lemma place_consecutive:
  assumes "\<forall>(i, c) \<in> set reqs. is_pow2 c \<and> c dvd cursor"
    and "sorted (map (\<lambda>(i, c). - int c) reqs)"
    and "cursor + sum_list (map snd reqs) \<le> parent_end"
  shows "place parent_end cursor reqs = Inr (consecutive cursor reqs)"
  using assms
proof (induction reqs arbitrary: cursor)
  case Nil
  show ?case by simp
next
  case (Cons p reqs)
  obtain i c where p: "p = (i, c)" by (cases p)
  from Cons.prems(1) p have c: "is_pow2 c" "c dvd cursor" by auto
  then have start: "align_up cursor c = cursor"
    using align_up_aligned is_pow2_pos by blast
  have fits: "\<not> cursor + c > parent_end"
    using Cons.prems(3) p by simp
  have "\<forall>(j, d) \<in> set reqs. is_pow2 d \<and> d dvd cursor + c"
  proof (clarify)
    fix j d assume jd: "(j, d) \<in> set reqs"
    with Cons.prems(1) have d: "is_pow2 d" "d dvd cursor" by auto
    from Cons.prems(2) p jd have "- int c \<le> - int d" by auto
    then have "d \<le> c" by simp
    with d(1) c(1) have "d dvd c" by (rule is_pow2_dvd)
    with d show "is_pow2 d \<and> d dvd cursor + c" by simp
  qed
  moreover have "sorted (map (\<lambda>(i, c). - int c) reqs)"
    using Cons.prems(2) by simp
  moreover have "cursor + c + sum_list (map snd reqs) \<le> parent_end"
    using Cons.prems(3) p by simp
  ultimately have "place parent_end (cursor + c) reqs = Inr (consecutive (cursor + c) reqs)"
    by (rule Cons.IH)
  with start fits show ?case by (simp add: p Let_def)
qed

lemma consecutive_keys: "map fst (consecutive cursor reqs) = map fst reqs"
  by (induction reqs arbitrary: cursor) auto

lemma consecutive_member:
  assumes "(i, b) \<in> set (consecutive cursor reqs)"
  shows "\<exists>c start. (i, c) \<in> set reqs \<and> b = block_of start c \<and> cursor \<le> start
           \<and> start + c \<le> cursor + sum_list (map snd reqs)"
  using assms
proof (induction reqs arbitrary: cursor)
  case Nil
  then show ?case by simp
next
  case (Cons p reqs)
  obtain j d where p: "p = (j, d)" by (cases p)
  from Cons.prems p
  consider "i = j" "b = block_of cursor d" | "(i, b) \<in> set (consecutive (cursor + d) reqs)"
    by auto
  then show ?case
  proof cases
    case 1
    then show ?thesis using p by (intro exI [of _ d] exI [of _ cursor]) simp
  next
    case 2
    from Cons.IH [OF this] obtain c start where
      "(i, c) \<in> set reqs" "b = block_of start c" "cursor + d \<le> start"
      "start + c \<le> cursor + d + sum_list (map snd reqs)"
      by blast
    then show ?thesis using p by (intro exI [of _ c] exI [of _ start]) simp
  qed
qed

lemma consecutive_disjoint:
  assumes "\<forall>(i, c) \<in> set reqs. is_pow2 c \<and> c \<le> 2 ^ addr_bits"
    and "(i, b) \<in> set (consecutive cursor reqs)"
    and "(j, b') \<in> set (consecutive cursor reqs)"
    and "i \<noteq> j"
  shows "addresses b \<inter> addresses b' = {}"
  using assms
proof (induction reqs arbitrary: cursor)
  case Nil
  then show ?case by simp
next
  case (Cons p reqs)
  obtain k d where p: "p = (k, d)" by (cases p)
  from Cons.prems(1) p have d: "is_pow2 d" "d \<le> 2 ^ addr_bits" by auto
  have rest: "\<forall>(i, c) \<in> set reqs. is_pow2 c \<and> c \<le> 2 ^ addr_bits"
    using Cons.prems(1) by simp
  have later: "addresses (block_of cursor d) \<inter> addresses x = {}"
    if "(n, x) \<in> set (consecutive (cursor + d) reqs)" for n x
  proof -
    from consecutive_member [OF that] obtain c start where
      c: "(n, c) \<in> set reqs" and x: "x = block_of start c" and lo: "cursor + d \<le> start"
      by blast
    from rest c have "is_pow2 c" "c \<le> 2 ^ addr_bits" by auto
    then have "addresses x = {start ..< start + c}"
      using x addresses_block_of by simp
    moreover have "addresses (block_of cursor d) = {cursor ..< cursor + d}"
      using d by (rule addresses_block_of)
    ultimately show ?thesis using lo by auto
  qed
  from Cons.prems(2) p
  consider (hd1) "i = k" "b = block_of cursor d"
    | (tl1) "(i, b) \<in> set (consecutive (cursor + d) reqs)" by auto
  then show ?case
  proof cases
    case hd1
    from Cons.prems(3) p
    consider (hd2) "j = k" | (tl2) "(j, b') \<in> set (consecutive (cursor + d) reqs)" by auto
    then show ?thesis
    proof cases
      case hd2
      with hd1 Cons.prems(4) show ?thesis by simp
    next
      case tl2
      with later hd1 show ?thesis by blast
    qed
  next
    case tl1
    from Cons.prems(3) p
    consider (hd2) "j = k" "b' = block_of cursor d"
      | (tl2) "(j, b') \<in> set (consecutive (cursor + d) reqs)" by auto
    then show ?thesis
    proof cases
      case hd2
      with later tl1 show ?thesis by blast
    next
      case tl2
      from Cons.IH [OF rest tl1 tl2 Cons.prems(4)] show ?thesis .
    qed
  qed
qed

lemma sort_key_fst_upt:
  fixes xs :: "(nat \<times> 'a) list"
  assumes "mset (map fst xs) = mset [0..<n]"
  shows "map fst (sort_key fst xs) = [0..<n]"
proof -
  have "sorted (map fst (sort_key fst xs))" by simp
  moreover have "mset (map fst (sort_key fst xs)) = mset [0..<n]"
    using assms by simp
  ultimately have "sort [0..<n] = map fst (sort_key fst xs)"
    by (metis properties_for_sort)
  then show ?thesis by (simp add: sorted_sort_id)
qed


text \<open>
  Claim C5. For a parent block that is a network prefix and a list of sizes that are
  powers of two and together fit into the parent, \<open>allocate\<close> succeeds and returns one
  block per request, in the order of the requests: the \<open>i\<close>-th block has exactly the
  capacity of the \<open>i\<close>-th request and lies inside the parent, and any two blocks are
  disjoint.
\<close>

theorem allocate_correct:
  assumes P: "valid_block P"
    and pow: "\<forall>s \<in> set S. is_pow2 s"
    and fits: "sum_list S \<le> capacity P"
  shows "\<exists>bs. allocate P S = Inr bs \<and> length bs = length S
           \<and> (\<forall>i < length S. capacity (bs ! i) = S ! i \<and> addresses (bs ! i) \<subseteq> addresses P)
           \<and> (\<forall>i < length S. \<forall>j < length S.
                  i \<noteq> j \<longrightarrow> addresses (bs ! i) \<inter> addresses (bs ! j) = {})"
proof -
  define reqs where "reqs = sort_key (\<lambda>(i, c). - int c) (enumerate 0 S)"
  define assigned where "assigned = consecutive (base P) reqs"
  define bs where "bs = map snd (sort_key fst assigned)"
  have mem: "(i, c) \<in> set reqs \<longleftrightarrow> i < length S \<and> S ! i = c" for i c
    by (auto simp: reqs_def in_set_enumerate_eq)
  have "mset reqs = mset (enumerate 0 S)" by (simp add: reqs_def)
  then have msets: "mset (map snd reqs) = mset S" "mset (map fst reqs) = mset [0..<length S]"
    by (metis map_snd_enumerate mset_map, metis map_fst_enumerate mset_map add_0)
  have total: "sum_list (map snd reqs) = sum_list S"
    using msets(1) by (metis sum_mset_sum_list)
  have capP: "capacity P \<le> 2 ^ addr_bits"
    using P by (simp add: valid_block_def)
  have powP: "is_pow2 (capacity P)"
    by (auto simp: is_pow2_iff capacity_def)
  have each: "is_pow2 c \<and> c \<le> capacity P \<and> c dvd base P" if "c \<in> set S" for c
  proof -
    from that pow have c: "is_pow2 c" by simp
    from that have "c \<le> sum_list S" by (simp add: member_le_sum_list)
    with fits have le: "c \<le> capacity P" by simp
    with c powP have "c dvd capacity P" by (rule is_pow2_dvd)
    moreover have "capacity P dvd base P"
      using P by (simp add: valid_block_def dvd_eq_mod_eq_0)
    ultimately have "c dvd base P" by (rule dvd_trans)
    with c le show ?thesis by simp
  qed
  have req_ok: "\<forall>(i, c) \<in> set reqs. is_pow2 c \<and> c dvd base P"
    using mem each by (auto simp: set_conv_nth)
  have req_small: "\<forall>(i, c) \<in> set reqs. is_pow2 c \<and> c \<le> 2 ^ addr_bits"
  proof (clarify)
    fix i c assume "(i, c) \<in> set reqs"
    with mem have "c \<in> set S" by (auto simp: set_conv_nth)
    with each capP show "is_pow2 c \<and> c \<le> 2 ^ addr_bits" by fastforce
  qed
  have "sorted (map (\<lambda>(i, c). - int c) reqs)"
    by (simp add: reqs_def)
  moreover have "base P + sum_list (map snd reqs) \<le> base P + capacity P"
    using total fits by simp
  ultimately have placed: "place (base P + capacity P) (base P) reqs = Inr assigned"
    unfolding assigned_def using req_ok by (intro place_consecutive)
  have "list_all is_pow2 S" using pow by (simp add: list_all_iff)
  with fits placed have alloc: "allocate P S = Inr bs"
    by (simp add: allocate_def reqs_def bs_def Let_def)
  have keys: "mset (map fst assigned) = mset [0..<length S]"
    using msets(2) by (simp add: assigned_def consecutive_keys)
  then have idx: "map fst (sort_key fst assigned) = [0..<length S]"
    by (rule sort_key_fst_upt)
  then have len_sorted: "length (sort_key fst assigned) = length S"
    by (metis length_map length_upt minus_nat.diff_0)
  then have len: "length bs = length S" by (simp add: bs_def)
  have at: "(i, bs ! i) \<in> set assigned" if "i < length S" for i
  proof -
    from that len_sorted have "sort_key fst assigned ! i \<in> set (sort_key fst assigned)"
      by (intro nth_mem) simp
    then have "sort_key fst assigned ! i \<in> set assigned" by simp
    moreover have "fst (sort_key fst assigned ! i) = i"
      using idx that len_sorted by (metis nth_map nth_upt add_0)
    moreover have "bs ! i = snd (sort_key fst assigned ! i)"
      using that len_sorted by (simp add: bs_def)
    ultimately show ?thesis by (metis prod.collapse)
  qed
  have inside: "capacity (bs ! i) = S ! i \<and> addresses (bs ! i) \<subseteq> addresses P"
    if "i < length S" for i
  proof -
    from at [OF that] have "(i, bs ! i) \<in> set (consecutive (base P) reqs)"
      by (simp add: assigned_def)
    from consecutive_member [OF this] obtain c start where
      c: "(i, c) \<in> set reqs" and b: "bs ! i = block_of start c"
      and lo: "base P \<le> start" and hi: "start + c \<le> base P + sum_list (map snd reqs)"
      by blast
    from c mem have ci: "c = S ! i" by simp
    from c req_small have ok: "is_pow2 c" "c \<le> 2 ^ addr_bits" by auto
    have "capacity (bs ! i) = c" using b capacity_block_of [OF ok] by simp
    moreover have "addresses (bs ! i) = {start ..< start + c}"
      using b addresses_block_of [OF ok] by simp
    moreover have "start + c \<le> base P + capacity P" using hi total fits by simp
    ultimately show ?thesis using lo ci by (auto simp: addresses_def)
  qed
  have apart: "addresses (bs ! i) \<inter> addresses (bs ! j) = {}"
    if "i < length S" "j < length S" "i \<noteq> j" for i j
    using consecutive_disjoint [OF req_small, of i "bs ! i" "base P" j "bs ! j"]
      at [OF that(1)] at [OF that(2)] that(3)
    by (simp add: assigned_def)
  from alloc len inside apart show ?thesis by blast
qed


theorem allocate_correct_witness:
  "valid_block parent_24 \<and> list_all is_pow2 mixed_sizes
   \<and> sum_list mixed_sizes \<le> capacity parent_24
   \<and> allocate parent_24 mixed_sizes
       = Inr [\<lparr>base = 2752, prefix_len = 27\<rparr>, \<lparr>base = 2688, prefix_len = 26\<rparr>,
              \<lparr>base = 2784, prefix_len = 27\<rparr>, \<lparr>base = 2560, prefix_len = 25\<rparr>]
   \<and> map capacity [\<lparr>base = 2752, prefix_len = 27\<rparr>, \<lparr>base = 2688, prefix_len = 26\<rparr>,
                    \<lparr>base = 2784, prefix_len = 27\<rparr>, \<lparr>base = 2560, prefix_len = 25\<rparr>]
       = mixed_sizes
   \<and> addresses \<lparr>base = 2752, prefix_len = 27\<rparr> \<inter> addresses \<lparr>base = 2784, prefix_len = 27\<rparr> = {}
   \<and> addresses \<lparr>base = 2560, prefix_len = 25\<rparr> \<subseteq> addresses parent_24"
proof -
  let ?bs = "[\<lparr>base = 2752, prefix_len = 27\<rparr>, \<lparr>base = 2688, prefix_len = 26\<rparr>,
              \<lparr>base = 2784, prefix_len = 27\<rparr>, \<lparr>base = 2560, prefix_len = 25\<rparr>]"
  have v: "valid_block parent_24"
    by (simp add: valid_block_def parent_24_def capacity_def addr_bits_def)
  have "is_pow2 (2 ^ 5)" "is_pow2 (2 ^ 6)" "is_pow2 (2 ^ 7)"
    unfolding is_pow2_iff by blast+
  then have p: "\<forall>s \<in> set mixed_sizes. is_pow2 s"
    by (simp add: mixed_sizes_def)
  have f: "sum_list mixed_sizes \<le> capacity parent_24"
    by (simp add: mixed_sizes_def parent_24_def capacity_def addr_bits_def)
  have run: "allocate parent_24 mixed_sizes = Inr ?bs"
    by (simp add: allocate_def mixed_sizes_def parent_24_def capacity_def addr_bits_def
        is_pow2_def log2.simps enumerate_eq_zip upt_rec [of 0] upt_rec [of 1] upt_rec [of 2]
        upt_rec [of 3] align_up_def block_of_def Let_def)
  have n: "length mixed_sizes = 4" by (simp add: mixed_sizes_def)
  from allocate_correct [OF v p f] run have
    cap: "\<forall>i < length mixed_sizes. capacity (?bs ! i) = mixed_sizes ! i
                 \<and> addresses (?bs ! i) \<subseteq> addresses parent_24"
    and apart: "\<forall>i < length mixed_sizes. \<forall>j < length mixed_sizes.
                  i \<noteq> j \<longrightarrow> addresses (?bs ! i) \<inter> addresses (?bs ! j) = {}"
    by auto
  have c: "capacity (?bs ! i) = mixed_sizes ! i \<and> addresses (?bs ! i) \<subseteq> addresses parent_24"
    if "i < 4" for i
    using cap n that by simp
  have "map capacity ?bs = mixed_sizes"
    using c [of 0] c [of 1] c [of 2] c [of 3] by (simp add: mixed_sizes_def)
  moreover have "addresses (?bs ! 0) \<inter> addresses (?bs ! 2) = {}"
    using apart [rule_format, of 0 2] n by simp
  moreover have "addresses (?bs ! 3) \<subseteq> addresses parent_24"
    using c [of 3] by simp
  ultimately show ?thesis using v p f run by (simp add: list_all_iff)
qed

section \<open>The launch calls of a role\<close>

text \<open>
  When \<^verbatim>\<open>instance_role\<close> gets through its loop, the launch calls it has issued are, in
  the order of the walk, the counts of \<open>subnet_counts\<close> that are not zero, negative
  ones included.
\<close>

lemma seq_Inr_iff:
  "seq m f w = (Inr y, w') \<longleftrightarrow> (\<exists>x w1. m w = (Inr x, w1) \<and> f x w1 = (Inr y, w'))"
  by (auto simp: seq_def split: prod.splits sum.splits)

lemma lift_Inr_iff: "lift r w = (Inr x, w') \<longleftrightarrow> r = Inr x \<and> w' = w"
  by (cases r) (auto simp: lift_def ok_def raise_def)

lemma ok_Inr_iff: "ok x w = (Inr y, w') \<longleftrightarrow> y = x \<and> w' = w"
  by (auto simp: ok_def)

lemma emit_Inr_iff:
  "emit m l w = (Inr x, w') \<longleftrightarrow> w' = w\<lparr>logs := logs w @ [(l, m)]\<rparr>"
  by (auto simp: emit_def)

lemma create_instances_Inr:
  assumes "create_instances req w = (Inr new, w')"
  shows "launches w' = launches w @ [req]"
    and "tags w' = tags w" and "mint w' = mint w" and "minted w \<le> minted w'"
    and "\<exists>ks. instances w' = instances w @ map (\<lambda>k. (mint w k)\<lparr>inst_subnet := l_subnet req\<rparr>) ks
           \<and> (\<forall>k \<in> set ks. minted w \<le> k)"
  using assms
  by (auto simp: create_instances_def Let_def split: option.splits)

lemma existing_in_subnet_grow:
  assumes "tags w' = tags w"
    and "instances w' = instances w @ map (\<lambda>k. (mint w k)\<lparr>inst_subnet := s\<rparr>) ks"
    and "\<forall>k \<in> set ks. minted w \<le> k"
    and "fresh_supply w role_name"
  shows "existing_in_subnet w' role_name sn = existing_in_subnet w role_name sn"
proof -
  have "filter (\<lambda>i. tag_of w (InstanceId (inst_id i)) ''role'' = Some role_name)
          (map (\<lambda>k. (mint w k)\<lparr>inst_subnet := s\<rparr>) ks) = []"
    using assms(3,4) by (auto simp: fresh_supply_def filter_empty_conv)
  then have "filter (\<lambda>i. tag_of w (InstanceId (inst_id i)) ''role'' = Some role_name)
          (filter (\<lambda>i. inst_subnet i = subnet_id sn)
             (map (\<lambda>k. (mint w k)\<lparr>inst_subnet := s\<rparr>) ks)) = []"
    by (auto simp: filter_empty_conv)
  then show ?thesis
    using assms(1,2)
    by (simp add: existing_in_subnet_def get_role_def subnet_instances_def tag_of_def)
qed

lemma launch_in_subnet_effect:
  assumes run: "launch_in_subnet role_name role_data ami key_pair sgs per rem sn w
                  = (Inr (rem', new), w')"
    and fresh: "fresh_supply w role_name"
  shows "\<exists>c. subnet_count per rem (existing_in_subnet w role_name sn) = (rem', c)
           \<and> issued w' = issued w @ (if c \<noteq> 0 then [(subnet_id sn, c)] else [])"
    and "existing_in_subnet w' role_name sn' = existing_in_subnet w role_name sn'"
    and "fresh_supply w' role_name"
proof -
  let ?w1 = "w\<lparr>uuid_count := Suc (uuid_count w)\<rparr>"
  have ex1: "int (length (get_role ?w1 role_name (subnet_instances ?w1 sn)))
               = existing_in_subnet w role_name sn"
    by (simp add: existing_in_subnet_def get_role_def subnet_instances_def tag_of_def)
  obtain r c where sc: "subnet_count per rem (existing_in_subnet w role_name sn) = (r, c)"
    by (metis prod.exhaust)
  show "\<exists>c. subnet_count per rem (existing_in_subnet w role_name sn) = (rem', c)
           \<and> issued w' = issued w @ (if c \<noteq> 0 then [(subnet_id sn, c)] else [])"
    and "existing_in_subnet w' role_name sn' = existing_in_subnet w role_name sn'"
    and "fresh_supply w' role_name"
  proof -
    have all: "(subnet_count per rem (existing_in_subnet w role_name sn) = (rem', c)
           \<and> issued w' = issued w @ (if c \<noteq> 0 then [(subnet_id sn, c)] else []))
         \<and> existing_in_subnet w' role_name sn' = existing_in_subnet w role_name sn'
         \<and> fresh_supply w' role_name"
    proof (cases "c = 0")
      case True
      with run sc ex1 have "rem' = r" "w' = ?w1"
        by (simp_all add: launch_in_subnet_def Let_def ok_def)
      with True sc fresh show ?thesis
        by (simp add: issued_def existing_in_subnet_def get_role_def subnet_instances_def
            tag_of_def fresh_supply_def)
    next
      case False
      have "\<exists>req l. rem' = r \<and> l_subnet req = subnet_id sn \<and> l_count req = c
              \<and> create_instances req (?w1\<lparr>logs := l\<rparr>) = (Inr new, w')"
        using run sc ex1 False
        apply (clarsimp simp: launch_in_subnet_def Let_def seq_Inr_iff lift_Inr_iff ok_Inr_iff
            emit_Inr_iff)
        subgoal for subnet_name key_name security_group_ids
          by (rule exI [of _ "\<lparr> l_subnet = subnet_id sn, l_image = ami,
                    l_instance_type = rd_instance_type role_data,
                    l_count = c, l_key_name = key_name,
                    l_security_group_ids = security_group_ids,
                    l_token = uuid_count w \<rparr>"]) auto
        done
      then obtain req l where
        r: "rem' = r" and req: "l_subnet req = subnet_id sn" "l_count req = c"
        and ci: "create_instances req (?w1\<lparr>logs := l\<rparr>) = (Inr new, w')"
        by blast
      have t2: "tags (?w1\<lparr>logs := l\<rparr>) = tags w" "mint (?w1\<lparr>logs := l\<rparr>) = mint w"
        "minted (?w1\<lparr>logs := l\<rparr>) = minted w"
        "instances (?w1\<lparr>logs := l\<rparr>) = instances w"
        "launches (?w1\<lparr>logs := l\<rparr>) = launches w"
        by simp_all
      from create_instances_Inr [OF ci] t2 req obtain ks where
        l: "launches w' = launches w @ [req]" and t: "tags w' = tags w"
        and m: "mint w' = mint w" "minted w \<le> minted w'"
        and i: "instances w' = instances w @ map (\<lambda>k. (mint w k)\<lparr>inst_subnet := subnet_id sn\<rparr>) ks"
        and ks: "\<forall>k \<in> set ks. minted w \<le> k"
        by auto
      have "existing_in_subnet w' role_name sn' = existing_in_subnet w role_name sn'"
        using t i ks fresh by (rule existing_in_subnet_grow)
      moreover have "fresh_supply w' role_name"
        using fresh t m by (auto simp: fresh_supply_def tag_of_def)
      moreover have "issued w' = issued w @ [(subnet_id sn, c)]"
        using l req by (simp add: issued_def)
      ultimately show ?thesis using sc r False by simp
    qed
    from all show "\<exists>c. subnet_count per rem (existing_in_subnet w role_name sn) = (rem', c)
           \<and> issued w' = issued w @ (if c \<noteq> 0 then [(subnet_id sn, c)] else [])"
      by blast
    from all show "existing_in_subnet w' role_name sn' = existing_in_subnet w role_name sn'"
      by blast
    from all show "fresh_supply w' role_name" by blast
  qed
qed

lemma launch_loop_issues_counts:
  assumes "launch_loop role_name role_data ami key_pair sgs per sns rem acc w = (Inr res, w')"
    and "fresh_supply w role_name"
  shows "issued w' = issued w
           @ filter (\<lambda>(s, c). c \<noteq> 0)
               (zip (map subnet_id sns)
                    (subnet_counts per rem (map (existing_in_subnet w role_name) sns)))"
  using assms
proof (induction sns arbitrary: rem acc w)
  case Nil
  then show ?case by (simp add: ok_def)
next
  case (Cons sn sns)
  from Cons.prems(1) obtain rem' new w1 where
    step: "launch_in_subnet role_name role_data ami key_pair sgs per rem sn w
             = (Inr (rem', new), w1)"
    and rest: "launch_loop role_name role_data ami key_pair sgs per sns rem' (acc @ new) w1
                 = (Inr res, w')"
    by (auto split: prod.splits sum.splits)
  from launch_in_subnet_effect [OF step Cons.prems(2)] obtain c where
    sc: "subnet_count per rem (existing_in_subnet w role_name sn) = (rem', c)"
    and i1: "issued w1 = issued w @ (if c \<noteq> 0 then [(subnet_id sn, c)] else [])"
    and same: "\<And>sn'. existing_in_subnet w1 role_name sn' = existing_in_subnet w role_name sn'"
    and fresh1: "fresh_supply w1 role_name"
    by blast
  have "map (existing_in_subnet w1 role_name) sns = map (existing_in_subnet w role_name) sns"
    using same by simp
  with Cons.IH [OF rest fresh1] i1 sc show ?case
    by (simp add: subnet_counts.simps(2))
qed


lemma reads_Inr_iff: "reads f w = (Inr x, w') \<longleftrightarrow> x = f w \<and> w' = w"
  by (auto simp: reads_def)

lemma logs_frame_more:
  "existing_in_subnet (w\<lparr>logs := l\<rparr>) = existing_in_subnet w"
  "fresh_supply (w\<lparr>logs := l\<rparr>) = fresh_supply w"
  "issued (w\<lparr>logs := l\<rparr>) = issued w"
  by (intro ext, simp add: existing_in_subnet_def get_role_def subnet_instances_def tag_of_def
      fresh_supply_def)+ (simp add: issued_def)

lemma those_Some_length: "those xs = Some ys \<Longrightarrow> length ys = length xs"
  by (induction xs arbitrary: ys) (auto split: option.splits)

lemma instance_role_issues_counts:
  assumes run: "instance_role role_name role_data desired_count w = (Inr (Some res), w')"
    and fresh: "fresh_supply w role_name"
  shows "\<exists>zones.
           sort_subnets w (map (get_subnet w)
               (case rd_subnets role_data of None \<Rightarrow> [] | Some l \<Rightarrow> l)) = Inr zones
           \<and> zones \<noteq> []
           \<and> int (length (get_role w role_name (instances w))) < desired_count
           \<and> issued w' = issued w
               @ filter (\<lambda>(s, c). c \<noteq> 0)
                   (zip (map subnet_id zones)
                      (subnet_counts
                         ((desired_count - int (length (get_role w role_name (instances w))))
                            div int (length zones))
                         ((desired_count - int (length (get_role w role_name (instances w))))
                            mod int (length zones))
                         (map (existing_in_subnet w role_name) zones)))"
proof -
  let ?w = "w\<lparr>logs := logs w @ [(''info'', ''creating role: '' @ role_name)]\<rparr>"
  let ?names = "case rd_subnets role_data of None \<Rightarrow> [] | Some l \<Rightarrow> l"
  let ?E = "int (length (get_role w role_name (instances w)))"
  from run obtain ami kp sgs zones where
    zones: "sort_subnets w (map (get_subnet w) ?names) = Inr zones"
    and ne: "map (get_subnet w) ?names \<noteq> []"
    and lt: "?E < desired_count"
    and loop: "launch_loop role_name role_data ami kp sgs
                 ((desired_count - ?E) div int (length zones)) zones
                 ((desired_count - ?E) mod int (length zones)) [] ?w = (Inr res, w')"
    by (auto simp: instance_role_def seq_Inr_iff emit_Inr_iff lift_Inr_iff reads_Inr_iff
        ok_Inr_iff logs_frame int_plus_str_def Let_def split: if_splits)
  have "length zones = length (map (get_subnet w) ?names)"
    using zones
    by (auto simp: sort_subnets_def split: option.splits dest: those_Some_length)
  with ne have nonempty: "zones \<noteq> []" by auto
  have "fresh_supply ?w role_name" using fresh by (simp add: logs_frame_more)
  from launch_loop_issues_counts [OF loop this]
  have "issued w' = issued w
           @ filter (\<lambda>(s, c). c \<noteq> 0)
               (zip (map subnet_id zones)
                  (subnet_counts ((desired_count - ?E) div int (length zones))
                     ((desired_count - ?E) mod int (length zones))
                     (map (existing_in_subnet w role_name) zones)))"
    by (simp add: logs_frame_more)
  with zones nonempty lt show ?thesis by blast
qed

lemma seq_Inl_iff:
  "seq m f w = (Inl e, w') \<longleftrightarrow>
     m w = (Inl e, w') \<or> (\<exists>x w1. m w = (Inr x, w1) \<and> f x w1 = (Inl e, w'))"
  by (auto simp: seq_def split: prod.splits sum.splits)

lemma lift_Inl_iff: "lift r w = (Inl e, w') \<longleftrightarrow> r = Inl e \<and> w' = w"
  by (cases r) (auto simp: lift_def ok_def raise_def)

lemma ok_not_Inl: "ok x w \<noteq> (Inl e, w')"
  by (simp add: ok_def)

lemma emit_not_Inl: "emit m l w \<noteq> (Inl e, w')"
  by (simp add: emit_def)

lemma create_instances_Inl:
  assumes "create_instances req w = (Inl e, w')"
  shows "launches w' = launches w @ [req]"
  using assms by (auto simp: create_instances_def Let_def split: option.splits)

lemma launch_in_subnet_fails:
  assumes run: "launch_in_subnet role_name role_data ami key_pair sgs per rem sn w = (Inl e, w')"
  shows "\<exists>rem' c. subnet_count per rem (existing_in_subnet w role_name sn) = (rem', c)
           \<and> c \<noteq> 0
           \<and> (issued w' = issued w \<or> issued w' = issued w @ [(subnet_id sn, c)])"
proof -
  let ?w1 = "w\<lparr>uuid_count := Suc (uuid_count w)\<rparr>"
  have ex1: "int (length (get_role ?w1 role_name (subnet_instances ?w1 sn)))
               = existing_in_subnet w role_name sn"
    by (simp add: existing_in_subnet_def get_role_def subnet_instances_def tag_of_def)
  obtain r c where sc: "subnet_count per rem (existing_in_subnet w role_name sn) = (r, c)"
    by (metis prod.exhaust)
  have nz: "c \<noteq> 0"
  proof
    assume "c = 0"
    with run sc ex1 show False
      by (simp add: launch_in_subnet_def Let_def ok_def)
  qed
  have "issued w' = issued w \<or> issued w' = issued w @ [(subnet_id sn, c)]"
    using run sc ex1 nz
    by (auto simp: launch_in_subnet_def Let_def seq_Inl_iff lift_Inl_iff lift_Inr_iff
        emit_Inr_iff ok_not_Inl emit_not_Inl issued_def dest!: create_instances_Inl)
  with sc nz show ?thesis by blast
qed

lemma launch_loop_issues_prefix:
  assumes "launch_loop role_name role_data ami key_pair sgs per sns rem acc w = (r, w')"
    and "fresh_supply w role_name"
  shows "\<exists>n. issued w' = issued w
           @ take n (filter (\<lambda>(s, c). c \<noteq> 0)
               (zip (map subnet_id sns)
                    (subnet_counts per rem (map (existing_in_subnet w role_name) sns))))"
  using assms
proof (induction sns arbitrary: rem acc w)
  case Nil
  then show ?case by (simp add: ok_def)
next
  case (Cons sn sns)
  let ?rest = "\<lambda>rem'. filter (\<lambda>(s, c). c \<noteq> 0)
               (zip (map subnet_id sns)
                    (subnet_counts per rem' (map (existing_in_subnet w role_name) sns)))"
  obtain r1 w1 where step:
    "launch_in_subnet role_name role_data ami key_pair sgs per rem sn w = (r1, w1)"
    by (metis prod.exhaust)
  show ?case
  proof (cases r1)
    case (Inl e)
    with Cons.prems(1) step have w': "w' = w1" by simp
    from launch_in_subnet_fails [OF step [unfolded Inl]] obtain rem' c where
      sc: "subnet_count per rem (existing_in_subnet w role_name sn) = (rem', c)"
      and nz: "c \<noteq> 0"
      and i: "issued w1 = issued w \<or> issued w1 = issued w @ [(subnet_id sn, c)]"
      by blast
    have all: "filter (\<lambda>(s, c). c \<noteq> 0)
               (zip (map subnet_id (sn # sns))
                    (subnet_counts per rem (map (existing_in_subnet w role_name) (sn # sns))))
             = (subnet_id sn, c) # ?rest rem'"
      using sc nz by (simp add: subnet_counts.simps(2))
    from i show ?thesis
    proof
      assume "issued w1 = issued w"
      then show ?thesis using w' by (intro exI [of _ 0]) simp
    next
      assume "issued w1 = issued w @ [(subnet_id sn, c)]"
      then show ?thesis using w' all by (intro exI [of _ 1]) simp
    qed
  next
    case (Inr p)
    obtain rem' new where p: "p = (rem', new)" by (cases p)
    from Cons.prems(1) step Inr p have
      rest: "launch_loop role_name role_data ami key_pair sgs per sns rem' (acc @ new) w1
               = (r, w')"
      by simp
    from launch_in_subnet_effect [OF step [unfolded Inr p] Cons.prems(2)] obtain c where
      sc: "subnet_count per rem (existing_in_subnet w role_name sn) = (rem', c)"
      and i1: "issued w1 = issued w @ (if c \<noteq> 0 then [(subnet_id sn, c)] else [])"
      and same: "\<And>sn'. existing_in_subnet w1 role_name sn' = existing_in_subnet w role_name sn'"
      and fresh1: "fresh_supply w1 role_name"
      by blast
    have es: "map (existing_in_subnet w1 role_name) sns = map (existing_in_subnet w role_name) sns"
      using same by simp
    from Cons.IH [OF rest fresh1] es obtain n where
      n: "issued w' = issued w1 @ take n (?rest rem')"
      by auto
    show ?thesis
    proof (cases "c = 0")
      case True
      with n i1 sc show ?thesis
        by (intro exI [of _ n]) (simp add: subnet_counts.simps(2))
    next
      case False
      with n i1 sc show ?thesis
        by (intro exI [of _ "Suc n"]) (simp add: subnet_counts.simps(2))
    qed
  qed
qed

text \<open>The counts of the loop, subnet by subnet, as shares less what is there already.\<close>

lemma zip_subnet_counts:
  assumes "0 \<le> rem"
  shows "zip (map subnet_id zones) (subnet_counts per rem (map ex zones))
           = map (\<lambda>i. (subnet_id (zones ! i),
                        (if int i < rem then per + 1 else per) - ex (zones ! i)))
               [0..<length zones]"
proof (intro nth_equalityI)
  show "length (zip (map subnet_id zones) (subnet_counts per rem (map ex zones)))
          = length (map (\<lambda>i. (subnet_id (zones ! i),
                        (if int i < rem then per + 1 else per) - ex (zones ! i)))
               [0..<length zones])"
    by (simp add: length_subnet_counts)
next
  fix i
  assume "i < length (zip (map subnet_id zones) (subnet_counts per rem (map ex zones)))"
  then have i: "i < length zones" by (simp add: length_subnet_counts)
  then have "subnet_counts per rem (map ex zones) ! i + map ex zones ! i
               = (if int i < rem then per + 1 else per)"
    using subnet_counts_nth [OF assms, of i "map ex zones" per] by simp
  then have "subnet_counts per rem (map ex zones) ! i
               = (if int i < rem then per + 1 else per) - ex (zones ! i)"
    using i by simp
  with i show "zip (map subnet_id zones) (subnet_counts per rem (map ex zones)) ! i
          = map (\<lambda>i. (subnet_id (zones ! i),
                        (if int i < rem then per + 1 else per) - ex (zones ! i)))
               [0..<length zones] ! i"
    by (simp add: length_subnet_counts)
qed

lemma shares_sum:
  assumes "0 < Z" 
  shows "sum_list (map (\<lambda>i. if int i < n mod int Z then n div int Z + 1 else n div int Z) [0..<Z])
           = n"
proof -
  let ?r = "n mod int Z" and ?per = "n div int Z"
  have r0: "0 \<le> ?r" and rZ: "?r < int Z" using assms by simp_all
  let ?es = "replicate Z (0::int)"
  have "map (\<lambda>i. if int i < ?r then ?per + 1 else ?per) [0..<Z]
          = map2 (+) (subnet_counts ?per ?r ?es) ?es"
  proof (intro nth_equalityI)
    show "length (map (\<lambda>i. if int i < ?r then ?per + 1 else ?per) [0..<Z])
            = length (map2 (+) (subnet_counts ?per ?r ?es) ?es)"
      by (simp add: length_subnet_counts)
  next
    fix i assume "i < length (map (\<lambda>i. if int i < ?r then ?per + 1 else ?per) [0..<Z])"
    then have i: "i < Z" by simp
    with subnet_counts_nth [OF r0, of i ?es ?per]
    show "map (\<lambda>i. if int i < ?r then ?per + 1 else ?per) [0..<Z] ! i
            = map2 (+) (subnet_counts ?per ?r ?es) ?es ! i"
      by (simp add: length_subnet_counts)
  qed
  then have "sum_list (map (\<lambda>i. if int i < ?r then ?per + 1 else ?per) [0..<Z])
               = ?per * int Z + min ?r (int Z)"
    using subnet_counts_sum [OF r0, of ?per ?es] by simp
  also have "\<dots> = ?per * int Z + ?r" using rZ by simp
  also have "\<dots> = n" by simp
  finally show ?thesis .
qed

lemma sort_subnets_length:
  "sort_subnets w found = Inr zones \<Longrightarrow> length zones = length found"
  by (auto simp: sort_subnets_def split: option.splits dest: those_Some_length)

lemma instance_role_launches:
  assumes lt: "int (length (get_role w role_name (instances w))) < desired_count"
    and zones: "sort_subnets w (map (get_subnet w)
                  (case rd_subnets role_data of None \<Rightarrow> [] | Some l \<Rightarrow> l)) = Inr zones"
    and ne: "zones \<noteq> []"
  shows "instance_role role_name role_data desired_count w =
     (case lookup_ami w role_data of
        Inl e \<Rightarrow> (Inl e, w\<lparr>logs := logs w @ [(''info'', ''creating role: '' @ role_name)]\<rparr>)
      | Inr ami \<Rightarrow>
          (case launch_loop role_name role_data ami
                  (get_key_pair w (case rd_key_pair role_data of None \<Rightarrow> ''default'' | Some k \<Rightarrow> k))
                  (map (get_security_group w)
                     (case rd_security_groups role_data of None \<Rightarrow> [] | Some l \<Rightarrow> l))
                  ((desired_count - int (length (get_role w role_name (instances w))))
                     div int (length zones))
                  zones
                  ((desired_count - int (length (get_role w role_name (instances w))))
                     mod int (length zones))
                  [] (w\<lparr>logs := logs w @ [(''info'', ''creating role: '' @ role_name)]\<rparr>) of
             (Inl e, w') \<Rightarrow> (Inl e, w')
           | (Inr res, w') \<Rightarrow> (Inr (Some res), w')))"
proof -
  have "length (map (get_subnet w)
          (case rd_subnets role_data of None \<Rightarrow> [] | Some l \<Rightarrow> l)) \<noteq> 0"
    using sort_subnets_length [OF zones] ne by auto
  then have names: "(case rd_subnets role_data of None \<Rightarrow> [] | Some l \<Rightarrow> l) \<noteq> []"
    by auto
  show ?thesis
    using lt names
    by (simp add: instance_role_def seq_emit seq_reads seq_lift logs_frame zones Let_def
          split: sum.splits)
       (simp add: seq_def ok_def split: prod.splits sum.splits)
qed

text \<open>
  Claim C1, amended. Let the desired count \<open>D\<close> exceed the number \<open>E\<close> of the role's
  instances in the VPC, and let the role have at least one subnet. \<^verbatim>\<open>instance_role\<close>
  walks the subnets in ascending order of the number of instances each holds, of
  whatever role. With the floor share \<open>(D - E) div Z\<close> and the remainder
  \<open>(D - E) mod Z\<close>, the planned count of a subnet is the floor share plus one for the
  first \<open>remainder\<close> subnets of the walk and the floor share for the others; the planned
  counts add up to \<open>D - E\<close>, and at most \<open>(D - E) mod Z\<close> subnets get one more than the
  floor share. The launch calls that \<^verbatim>\<open>instance_role\<close> issues carry, in the order of
  the walk, the planned count less the role's instances already in the subnet, for
  the subnets where that count is not zero: all of them when \<^verbatim>\<open>instance_role\<close> returns,
  and the first few of them when a call to the provider fails on the way. This is
  stated for a provider whose new instances carry no role tag before
  \<^verbatim>\<open>tag_instances\<close> runs.
\<close>

theorem role_shares:
  assumes lt: "int (length (get_role w role_name (instances w))) < desired_count"
    and zones: "sort_subnets w (map (get_subnet w)
                  (case rd_subnets role_data of None \<Rightarrow> [] | Some l \<Rightarrow> l)) = Inr zones"
    and ne: "zones \<noteq> []"
    and fresh: "fresh_supply w role_name"
  shows
   "let existing_count = int (length (get_role w role_name (instances w)));
        needed_per_subnet = (desired_count - existing_count) div int (length zones);
        needed_remainder = (desired_count - existing_count) mod int (length zones);
        planned = map (\<lambda>i. if int i < needed_remainder then needed_per_subnet + 1
                            else needed_per_subnet) [0..<length zones];
        calls = filter (\<lambda>(s, c). c \<noteq> 0)
                  (map (\<lambda>i. (subnet_id (zones ! i),
                               planned ! i - existing_in_subnet w role_name (zones ! i)))
                     [0..<length zones]);
        outcome = instance_role role_name role_data desired_count w
    in sorted (map (\<lambda>sn. length (subnet_instances w sn)) zones)
       \<and> sum_list planned = desired_count - existing_count
       \<and> card {i. i < length zones \<and> planned ! i = needed_per_subnet + 1}
           \<le> nat needed_remainder
       \<and> (\<exists>n. issued (snd outcome) = issued w @ take n calls)
       \<and> (\<forall>res. fst outcome = Inr res
              \<longrightarrow> res \<noteq> None \<and> issued (snd outcome) = issued w @ calls)"
proof -
  define E where "E = int (length (get_role w role_name (instances w)))"
  define Z where "Z = length zones"
  define per where "per = (desired_count - E) div int Z"
  define r where "r = (desired_count - E) mod int Z"
  define planned where
    "planned = map (\<lambda>i. if int i < r then per + 1 else per) [0..<Z]"
  define calls where
    "calls = filter (\<lambda>(s, c). c \<noteq> 0)
               (map (\<lambda>i. (subnet_id (zones ! i),
                            planned ! i - existing_in_subnet w role_name (zones ! i)))
                  [0..<Z])"
  define outcome where "outcome = instance_role role_name role_data desired_count w"
  let ?w = "w\<lparr>logs := logs w @ [(''info'', ''creating role: '' @ role_name)]\<rparr>"
  have Zpos: "0 < Z" using ne by (simp add: Z_def)
  have r0: "0 \<le> r" and rZ: "r < int Z" using Zpos by (simp_all add: r_def)
  have nth: "planned ! i = (if int i < r then per + 1 else per)" if "i < Z" for i
    using that by (simp add: planned_def)
  have srt: "sorted (map (\<lambda>sn. length (subnet_instances w sn)) zones)"
    using sort_subnets_sorted(1) [OF zones] .
  have total: "sum_list planned = desired_count - E"
    unfolding planned_def per_def r_def by (rule shares_sum [OF Zpos])
  have "{i. i < Z \<and> planned ! i = per + 1} = {i. i < nat r}"
    using nth rZ r0 by (auto split: if_splits)
  then have cnt: "card {i. i < Z \<and> planned ! i = per + 1} \<le> nat r"
    by simp
  have calls_eq: "calls = filter (\<lambda>(s, c). c \<noteq> 0)
               (zip (map subnet_id zones)
                  (subnet_counts per r (map (existing_in_subnet w role_name) zones)))"
  proof -
    have "map (\<lambda>i. (subnet_id (zones ! i),
                      planned ! i - existing_in_subnet w role_name (zones ! i))) [0..<Z]
            = map (\<lambda>i. (subnet_id (zones ! i),
                      (if int i < r then per + 1 else per)
                        - existing_in_subnet w role_name (zones ! i))) [0..<Z]"
      using nth by simp
    also have "\<dots> = zip (map subnet_id zones)
                  (subnet_counts per r (map (existing_in_subnet w role_name) zones))"
      using zip_subnet_counts [OF r0, of zones per "existing_in_subnet w role_name"]
      by (simp only: Z_def)
    finally show ?thesis
      unfolding calls_def by (rule arg_cong)
  qed
  have form: "outcome =
     (case lookup_ami w role_data of
        Inl e \<Rightarrow> (Inl e, ?w)
      | Inr ami \<Rightarrow>
          (case launch_loop role_name role_data ami
                  (get_key_pair w (case rd_key_pair role_data of None \<Rightarrow> ''default'' | Some k \<Rightarrow> k))
                  (map (get_security_group w)
                     (case rd_security_groups role_data of None \<Rightarrow> [] | Some l \<Rightarrow> l))
                  per zones r [] ?w of
             (Inl e, w') \<Rightarrow> (Inl e, w')
           | (Inr res, w') \<Rightarrow> (Inr (Some res), w')))"
    unfolding outcome_def per_def r_def E_def Z_def
    using lt zones ne by (rule instance_role_launches)
  have fresh': "fresh_supply ?w role_name" using fresh by (simp add: logs_frame_more)
  have both: "(\<exists>n. issued (snd outcome) = issued w @ take n calls)
       \<and> (\<forall>res. fst outcome = Inr res
              \<longrightarrow> res \<noteq> None \<and> issued (snd outcome) = issued w @ calls)"
  proof (cases "lookup_ami w role_data")
    case (Inl e)
    with form have "outcome = (Inl e, ?w)" by simp
    then have "issued (snd outcome) = issued w @ take 0 calls" "fst outcome = Inl e"
      by (simp_all add: logs_frame_more)
    then show ?thesis by (metis sum.distinct(1))
  next
    case (Inr ami)
    obtain r1 w1 where loop: "launch_loop role_name role_data ami
                  (get_key_pair w (case rd_key_pair role_data of None \<Rightarrow> ''default'' | Some k \<Rightarrow> k))
                  (map (get_security_group w)
                     (case rd_security_groups role_data of None \<Rightarrow> [] | Some l \<Rightarrow> l))
                  per zones r [] ?w = (r1, w1)"
      by (metis prod.exhaust)
    from launch_loop_issues_prefix [OF loop fresh'] obtain n where
      pre: "issued w1 = issued w @ take n calls"
      by (auto simp: logs_frame_more calls_eq)
    show ?thesis
    proof (cases r1)
      case (Inl e)
      with form Inr loop have "outcome = (Inl e, w1)" by simp
      with pre show ?thesis by auto
    next
      case (Inr res)
      with form \<open>lookup_ami w role_data = Inr ami\<close> loop
      have out: "outcome = (Inr (Some res), w1)" by simp
      from launch_loop_issues_counts [OF loop [unfolded Inr] fresh']
      have "issued w1 = issued w @ calls"
        by (simp add: logs_frame_more calls_eq)
      with out pre show ?thesis by auto
    qed
  qed
  show ?thesis
    unfolding Let_def
    using srt total cnt both
    unfolding planned_def calls_def outcome_def per_def r_def E_def Z_def planned_def
    by simp
qed

lemma sorted_web:
  "sort_subnets web_world (map (get_subnet web_world) [''private-3'', ''private-1'', ''private-2''])
     = Inr [subnet_a, subnet_c, subnet_b]"
  by (simp add: sort_subnets_def get_subnet_def web_world_def base_world_def empty_world_def
      subnet_instances_def running_def subnet_a_def subnet_b_def subnet_c_def)

theorem role_shares_witness:
  "int (length (get_role web_world ''web'' (instances web_world))) < 6
   \<and> sort_subnets web_world
        (map (get_subnet web_world) [''private-3'', ''private-1'', ''private-2''])
       = Inr [subnet_a, subnet_c, subnet_b]
   \<and> [subnet_a, subnet_c, subnet_b] \<noteq> []
   \<and> map (existing_in_subnet web_world ''web'') [subnet_a, subnet_c, subnet_b] = [0, 1, 1]
   \<and> issued (snd (instance_role ''web''
                     (role_in [''private-3'', ''private-1'', ''private-2''] 6) 6 web_world))
       = [(''subnet-a'', 2)]"
proof -
  let ?rd = "role_in [''private-3'', ''private-1'', ''private-2''] 6"
  let ?zones = "[subnet_a, subnet_c, subnet_b]"
  have E: "int (length (get_role web_world ''web'' (instances web_world))) = 2"
    by (simp add: get_role_def tag_of_def web_world_def world_defs)
  then have lt: "int (length (get_role web_world ''web'' (instances web_world))) < 6"
    by simp
  have zones: "sort_subnets web_world (map (get_subnet web_world)
                 (case rd_subnets ?rd of None \<Rightarrow> [] | Some l \<Rightarrow> l)) = Inr ?zones"
    using sorted_web by (simp add: role_in_def)
  have ne: "?zones \<noteq> []" by simp
  have fresh: "fresh_supply web_world ''web''"
    by (simp add: fresh_supply_def tag_of_def web_world_def world_defs)
  have ex: "map (existing_in_subnet web_world ''web'') ?zones = [0, 1, 1]"
    by (simp add: existing_in_subnet_def get_role_def subnet_instances_def tag_of_def
        web_world_def world_defs)
  then have ex3: "existing_in_subnet web_world ''web'' subnet_a = 0"
    "existing_in_subnet web_world ''web'' subnet_c = 1"
    "existing_in_subnet web_world ''web'' subnet_b = 1"
    by simp_all
  have returns: "case fst (instance_role ''web'' ?rd 6 web_world) of
                   Inl _ \<Rightarrow> False | Inr _ \<Rightarrow> True"
    by code_simp
  then obtain res where res: "fst (instance_role ''web'' ?rd 6 web_world) = Inr res"
    by (cases "fst (instance_role ''web'' ?rd 6 web_world)") auto
  have none: "issued web_world = []"
    by (simp add: issued_def web_world_def world_defs)
  have ids: "subnet_id subnet_a = ''subnet-a''" "subnet_id subnet_b = ''subnet-b''"
    "subnet_id subnet_c = ''subnet-c''"
    by (simp_all add: subnet_a_def subnet_b_def subnet_c_def)
  from role_shares [OF lt zones ne fresh] res
  have "issued (snd (instance_role ''web'' ?rd 6 web_world)) = [(''subnet-a'', 2)]"
    by (simp add: Let_def E none ex3 ids upt_rec [of 0] upt_rec [of 1] upt_rec [of 2])
  with lt sorted_web ex show ?thesis by simp
qed

text \<open>
  Claim C1 as stated fails in the order of the walk. The first subnet holds two
  instances of another role and none of role \<open>web\<close>, the second holds one instance of
  role \<open>web\<close>: the walk starts with the second subnet, where the role's occupancy is
  higher, and the one instance that is needed is planned there. Less the one that is
  there, the count is zero in both subnets, and nothing is launched.
\<close>

theorem walk_not_by_role_occupancy:
  "sort_subnets mixed_world (map (get_subnet mixed_world) [''private-1'', ''private-2''])
     = Inr [subnet_b, subnet_a]
   \<and> map (existing_in_subnet mixed_world ''web'') [subnet_b, subnet_a] = [1, 0]
   \<and> fst (instance_role ''web'' (role_in [''private-1'', ''private-2''] 2) 2 mixed_world)
       = Inr (Some [])
   \<and> issued (snd (instance_role ''web'' (role_in [''private-1'', ''private-2''] 2) 2
                     mixed_world)) = []"
proof -
  have "sort_subnets mixed_world (map (get_subnet mixed_world) [''private-1'', ''private-2''])
     = Inr [subnet_b, subnet_a]
   \<and> map (existing_in_subnet mixed_world ''web'') [subnet_b, subnet_a] = [1, 0]"
    by (simp add: sort_subnets_def get_subnet_def existing_in_subnet_def get_role_def
        subnet_instances_def tag_of_def mixed_world_def world_defs)
  moreover have "fst (instance_role ''web'' (role_in [''private-1'', ''private-2''] 2) 2
                        mixed_world) = Inr (Some [])
   \<and> issued (snd (instance_role ''web'' (role_in [''private-1'', ''private-2''] 2) 2
                     mixed_world)) = []"
    by code_simp
  ultimately show ?thesis by simp
qed

section \<open>A role without subnets\<close>

text \<open>
  If some role of the section names no subnets, \<^verbatim>\<open>instance_roles\<close> never returns
  normally: either an earlier failure ends the role loop, or the tagging loop raises on
  the \<^verbatim>\<open>None\<close> recorded for that role.
\<close>

lemma instance_role_no_subnets:
  assumes "rd_subnets role_data = None \<or> rd_subnets role_data = Some []"
    and "instance_role role_name role_data desired_count w = (Inr r, w')"
  shows "r = None"
  using assms
  by (auto simp: instance_role_def seq_Inr_iff emit_Inr_iff lift_Inr_iff reads_Inr_iff
      ok_Inr_iff)

lemma roles_loop_other_keys:
  assumes "roles_loop cfg roles with_eips w = (Inr (roles', with_eips'), w')"
    and "k \<notin> fst ` set cfg"
  shows "map_of roles' k = map_of roles k"
  using assms
proof (induction cfg arbitrary: roles with_eips w)
  case Nil
  then show ?case by (simp add: ok_def)
next
  case (Cons p cfg)
  obtain role_name role_data where p: "p = (role_name, role_data)" by (cases p)
  from Cons.prems(1) p obtain r w1 e1 where
    rest: "roles_loop cfg (AList.update role_name r roles) e1 w1 = (Inr (roles', with_eips'), w')"
    by (auto simp: Let_def split: prod.splits sum.splits)
  from Cons.prems(2) p have "k \<noteq> role_name" "k \<notin> fst ` set cfg" by auto
  with Cons.IH [OF rest] show ?case by (simp add: update_conv')
qed

lemma roles_loop_records_none:
  assumes "roles_loop cfg roles with_eips w = (Inr (roles', with_eips'), w')"
    and "(role_name, role_data) \<in> set cfg"
    and "distinct (map fst cfg)"
    and "rd_subnets role_data = None \<or> rd_subnets role_data = Some []"
  shows "map_of roles' role_name = Some None"
  using assms(1-3)
proof (induction cfg arbitrary: roles with_eips w)
  case Nil
  then show ?case by simp
next
  case (Cons p cfg)
  obtain n rd where p: "p = (n, rd)" by (cases p)
  from Cons.prems(1) p obtain r w1 e1 where
    step: "instance_role n rd (case rd_count rd of None \<Rightarrow> 0 | Some c \<Rightarrow> c) w = (Inr r, w1)"
    and rest: "roles_loop cfg (AList.update n r roles) e1 w1 = (Inr (roles', with_eips'), w')"
    by (auto simp: Let_def split: prod.splits sum.splits)
  from Cons.prems(3) p have fresh: "n \<notin> fst ` set cfg" and dist: "distinct (map fst cfg)"
    by auto
  show ?case
  proof (cases "(role_name, role_data) = (n, rd)")
    case True
    with step assms(4) have "r = None"
      using instance_role_no_subnets by blast
    moreover have "map_of roles' n = map_of (AList.update n r roles) n"
      using rest fresh by (rule roles_loop_other_keys)
    ultimately show ?thesis using True by (simp add: update_conv')
  next
    case False
    with Cons.prems(2) p have "(role_name, role_data) \<in> set cfg" by auto
    from Cons.IH [OF rest this dist] show ?thesis .
  qed
qed

lemma tag_roles_loop_none:
  assumes "(role_name, None) \<in> set roles"
  shows "fst (tag_roles_loop roles w) = Inl (TypeError ''NoneType object is not iterable'')"
  using assms
proof (induction roles arbitrary: w)
  case Nil
  then show ?case by simp
next
  case (Cons p roles)
  obtain n r where p: "p = (n, r)" by (cases p)
  show ?case
  proof (cases r)
    case None
    with p show ?thesis by (simp add: tag_instances_def raise_def)
  next
    case (Some insts)
    with Cons.prems p have later: "(role_name, None) \<in> set roles" by auto
    obtain w1 where "tag_instances_loop n insts w = (Inr (), w1)"
      using tag_instances_loop_instance_tags [of n insts w] by blast
    with Some p Cons.IH [OF later, of w1] show ?thesis
      by (simp add: tag_instances_def)
  qed
qed

lemma instance_roles_no_subnets_raises:
  assumes "(role_name, role_data) \<in> set cfg"
    and "distinct (map fst cfg)"
    and "rd_subnets role_data = None \<or> rd_subnets role_data = Some []"
  shows "\<exists>e. fst (instance_roles cfg w) = Inl e"
proof (cases "roles_loop cfg [] [] w")
  case (Pair r w1)
  show ?thesis
  proof (cases r)
    case (Inl e)
    with Pair show ?thesis by (simp add: instance_roles_def seq_def)
  next
    case (Inr p)
    obtain roles with_eips where p: "p = (roles, with_eips)" by (cases p)
    with Pair Inr have loop: "roles_loop cfg [] [] w = (Inr (roles, with_eips), w1)" by simp
    from roles_loop_records_none [OF loop assms]
    have "(role_name, None) \<in> set roles" by (rule map_of_SomeD)
    then have "fst (tag_roles_loop roles w1)
                 = Inl (TypeError ''NoneType object is not iterable'')"
      by (rule tag_roles_loop_none)
    with loop show ?thesis
      by (auto simp: instance_roles_def seq_def split: prod.splits sum.splits)
  qed
qed

end
